theory Spec2Isabelle
  imports Main
begin

section \<open>Calendar arithmetic of the Go \<^verbatim>\<open>time\<close> package\<close>

text \<open>
  The scheduler computes on \<^verbatim>\<open>time.Time\<close> values. A day is counted from
  0001-01-01 (day 0, a Monday) in the proleptic Gregorian calendar, which is the calendar
  the package documents. Go's \<^verbatim>\<open>int\<close> is modelled by the unbounded \<open>int\<close>:
  every number that occurs is a year, a month, a day or a parsed rule parameter, far
  from the 64-bit limits, and \<open>Atoi\<close> below rejects what does not fit 64 bits.
\<close>

definition isLeap :: "int \<Rightarrow> bool" where
  "isLeap year = (year mod 4 = 0 \<and> (year mod 100 \<noteq> 0 \<or> year mod 400 = 0))"

text \<open>\<open>daysBefore m\<close>: days of a non-leap year before the first of month \<open>m\<close> (1 to 13).\<close>

definition daysBefore :: "int \<Rightarrow> int" where
  "daysBefore m =
     (if m = 1 then 0 else if m = 2 then 31 else if m = 3 then 59 else if m = 4 then 90
      else if m = 5 then 120 else if m = 6 then 151 else if m = 7 then 181
      else if m = 8 then 212 else if m = 9 then 243 else if m = 10 then 273
      else if m = 11 then 304 else if m = 12 then 334 else 365)"

definition daysIn :: "int \<Rightarrow> int \<Rightarrow> int" where
  "daysIn m year =
     (if m = 2 \<and> isLeap year then 29 else daysBefore (m + 1) - daysBefore m)"

definition daysSinceEpoch :: "int \<Rightarrow> int" where
  "daysSinceEpoch year =
     (let y = year - 1 in 365 * y + y div 4 - y div 100 + y div 400)"

text \<open>
  The day number of a civil date, as \<^verbatim>\<open>time.Date\<close> computes it: the month is
  normalised into 1..12 with the overflow carried into the year, and the day is added
  linearly, so that day 0 of a month is the last day of the month before and day 32 of
  January is the first of February.
\<close>

definition dateToDays :: "int \<Rightarrow> int \<Rightarrow> int \<Rightarrow> int" where
  "dateToDays year month day =
     (let m = month - 1;
          year' = year + m div 12;
          month' = m mod 12 + 1
      in daysSinceEpoch year' + daysBefore month'
         + (if isLeap year' \<and> month' \<ge> 3 then 1 else 0) + (day - 1))"

text \<open>
  From a day number back to year and day of the year: 400-year, 100-year, 4-year and
  1-year cycles are cut off in turn (the last day of a 400-year and of a 4-year cycle
  belongs to the cycle's last year).
\<close>

definition absYear :: "int \<Rightarrow> int \<times> int" where
  "absYear d0 =
     (let n400 = d0 div 146097;
          d1 = d0 - 146097 * n400;
          n100' = d1 div 36524;
          n100 = (if n100' = 4 then 3 else n100');
          d2 = d1 - 36524 * n100;
          n4 = d2 div 1461;
          d3 = d2 - 1461 * n4;
          n1' = d3 div 365;
          n1 = (if n1' = 4 then 3 else n1');
          yday = d3 - 365 * n1
      in (400 * n400 + 100 * n100 + 4 * n4 + n1 + 1, yday))"

text \<open>
  Month and day of the month from the day of a non-leap year: the month is estimated as
  if every month had 31 days, which is too low by at most one.
\<close>

definition monthDay :: "int \<Rightarrow> int \<times> int" where
  "monthDay day =
     (let month = day div 31;
          end = daysBefore (month + 2)
      in if day \<ge> end then (month + 2, day - end + 1)
         else (month + 1, day - daysBefore (month + 1) + 1))"

definition absDate :: "int \<Rightarrow> int \<times> int \<times> int" where
  "absDate z =
     (let (year, yday) = absYear z
      in if isLeap year \<and> yday = 59 then (year, 2, 29)
         else let day = (if isLeap year \<and> yday > 59 then yday - 1 else yday);
                  (month, mday) = monthDay day
              in (year, month, mday))"

section \<open>\<^verbatim>\<open>time.Time\<close>\<close>

text \<open>
  A location is its \<^verbatim>\<open>lookup\<close> function: for a moment in Unix seconds it gives the
  offset in effect (seconds east of UTC) and the first and the end moment of the period
  this offset is in effect for. \<^verbatim>\<open>time.UTC\<close> has one period with offset 0.
\<close>

type_synonym Location = "int \<Rightarrow> int \<times> int \<times> int"

definition UTC :: Location where
  "UTC = (\<lambda>unix. (0, - (2 ^ 63), 2 ^ 63 - 1))"

text \<open>
  A moment is a count of seconds since 0001-01-01 00:00:00 UTC with its nanoseconds, and
  the location it is shown in. \<open>unixToInternal\<close> is the count of 1970-01-01.
\<close>

record Time =
  sec :: int
  nsec :: int
  loc :: Location

definition unixToInternal :: int where
  "unixToInternal = 62135596800"

definition zoneOffset :: "Time \<Rightarrow> int" where
  "zoneOffset t = fst (loc t (sec t - unixToInternal))"

definition absDays :: "Time \<Rightarrow> int" where
  "absDays t = (sec t + zoneOffset t) div 86400"

text \<open>\<^verbatim>\<open>t.Date()\<close>, \<^verbatim>\<open>t.Year()\<close>, \<^verbatim>\<open>t.Month()\<close>, \<^verbatim>\<open>t.Day()\<close>,
  \<^verbatim>\<open>t.Clock()\<close> and \<^verbatim>\<open>t.Weekday()\<close> (Sunday is 0): all in the location of \<open>t\<close>.\<close>

definition dateOf :: "Time \<Rightarrow> int \<times> int \<times> int" where
  "dateOf t = absDate (absDays t)"

definition Year :: "Time \<Rightarrow> int" where
  "Year t = fst (dateOf t)"

definition Month :: "Time \<Rightarrow> int" where
  "Month t = fst (snd (dateOf t))"

definition Day :: "Time \<Rightarrow> int" where
  "Day t = snd (snd (dateOf t))"

definition Clock :: "Time \<Rightarrow> int \<times> int \<times> int" where
  "Clock t =
     (let s = (sec t + zoneOffset t) mod 86400 in (s div 3600, s mod 3600 div 60, s mod 60))"

definition Weekday :: "Time \<Rightarrow> int" where
  "Weekday t = (absDays t + 1) mod 7"

text \<open>
  \<^verbatim>\<open>time.Date(year, month, day, hour, min, sec, nsec, loc)\<close>. Values out of range are
  normalised, which for the seconds is the linear sum. The wall clock is first read as
  if it were UTC; the offset the location has at that moment is taken off, unless the
  moment so found lies outside the period of that offset: then the offset at the moment
  found is taken off instead.
\<close>

definition timeDate ::
  "int \<Rightarrow> int \<Rightarrow> int \<Rightarrow> int \<Rightarrow> int \<Rightarrow> int \<Rightarrow> int \<Rightarrow> Location \<Rightarrow> Time" where
  "timeDate year month day hour minute second nano l =
     (let unix = dateToDays year month day * 86400 + hour * 3600 + minute * 60 + second
                 + nano div 1000000000 - unixToInternal;
          (offset, start, end) = l unix;
          unix' = (if offset \<noteq> 0
                   then let utc = unix - offset;
                            offset' = (if utc < start \<or> utc \<ge> end then fst (l utc) else offset)
                        in unix - offset'
                   else unix)
      in \<lparr> sec = unix' + unixToInternal, nsec = nano mod 1000000000, loc = l \<rparr>)"

definition AddDate :: "Time \<Rightarrow> int \<Rightarrow> int \<Rightarrow> int \<Rightarrow> Time" where
  "AddDate t years months days =
     (let (year, month, day) = dateOf t;
          (hour, minute, second) = Clock t
      in timeDate (year + years) (month + months) (day + days) hour minute second
           (nsec t) (loc t))"

definition After :: "Time \<Rightarrow> Time \<Rightarrow> bool" where
  "After t u = (sec t > sec u \<or> (sec t = sec u \<and> nsec t > nsec u))"

definition Before :: "Time \<Rightarrow> Time \<Rightarrow> bool" where
  "Before t u = (sec t < sec u \<or> (sec t = sec u \<and> nsec t < nsec u))"

text \<open>Midnight UTC of the day with number \<open>d\<close>: the form of every date the
  calculator holds, since \<^verbatim>\<open>Parse\<close> gives one and \<^verbatim>\<open>AddDate\<close> keeps it.\<close>

definition midnightUTC :: "int \<Rightarrow> Time" where
  "midnightUTC d = \<lparr> sec = d * 86400, nsec = 0, loc = UTC \<rparr>"

subsection \<open>Formatting and parsing with the layout \<^verbatim>\<open>20060102\<close>\<close>

definition digitChar :: "nat \<Rightarrow> char" where
  "digitChar n = ''0123456789'' ! n"

fun showNat :: "nat \<Rightarrow> string" where
  "showNat n = (if n < 10 then [digitChar n] else showNat (n div 10) @ [digitChar (n mod 10)])"

text \<open>\<^verbatim>\<open>appendInt\<close>: a minus sign for a negative number, then the decimal digits
  padded with zeros to the width; a number with more digits is written in full.\<close>

definition appendInt :: "int \<Rightarrow> nat \<Rightarrow> string" where
  "appendInt x width =
     (let u = nat \<bar>x\<bar>; ds = showNat u
      in (if x < 0 then ''-'' else '''') @ replicate (width - length ds) CHR ''0'' @ ds)"

definition Format :: "Time \<Rightarrow> string" where
  "Format t = (let (year, month, day) = dateOf t
               in appendInt year 4 @ appendInt month 2 @ appendInt day 2)"

text \<open>The value of a decimal digit, from its byte: \<^verbatim>\<open>ch - '0'\<close>, refused when it is
  not in 0..9.\<close>

definition digitVal :: "char \<Rightarrow> int option" where
  "digitVal c = (let v = of_char c - 48 in if 0 \<le> v \<and> v \<le> (9 :: int) then Some v else None)"

fun digitsVal :: "int \<Rightarrow> string \<Rightarrow> int option" where
  "digitsVal n [] = Some n"
| "digitsVal n (c # cs) =
     (case digitVal c of None \<Rightarrow> None | Some d \<Rightarrow> digitsVal (n * 10 + d) cs)"

text \<open>
  \<^verbatim>\<open>time.Parse("20060102", value)\<close>: four digits of year, two of month, two of day
  and nothing more; the month must be in 1..12 and the day in the month. The result is
  midnight UTC of that date.
\<close>

definition Parse :: "string \<Rightarrow> Time option" where
  "Parse value =
     (if length value \<noteq> 8 then None
      else case (digitsVal 0 (take 4 value), digitsVal 0 (take 2 (drop 4 value)),
                 digitsVal 0 (drop 6 value)) of
        (Some year, Some month, Some day) \<Rightarrow>
          if month \<le> 0 \<or> 12 < month then None
          else if day < 1 \<or> day > daysIn month year then None
          else Some (timeDate year month day 0 0 0 0 UTC)
      | _ \<Rightarrow> None)"

section \<open>\<^verbatim>\<open>strconv.Atoi\<close>, \<^verbatim>\<open>strings.Split\<close> and \<^verbatim>\<open>strings.Fields\<close>\<close>

text \<open>\<^verbatim>\<open>Atoi\<close>: an optional sign, then one or more decimal digits; the value must
  fit a 64-bit \<^verbatim>\<open>int\<close>. \<open>None\<close> is a non-nil \<^verbatim>\<open>err\<close>.\<close>

definition Atoi :: "string \<Rightarrow> int option" where
  "Atoi s =
     (let neg = (s \<noteq> [] \<and> hd s = CHR ''-'');
          ds = (if s \<noteq> [] \<and> (hd s = CHR ''-'' \<or> hd s = CHR ''+'') then tl s else s)
      in if ds = [] then None
         else case digitsVal 0 ds of
           None \<Rightarrow> None
         | Some n \<Rightarrow>
             let v = (if neg then - n else n)
             in if v < - (2 ^ 63) \<or> 2 ^ 63 - 1 < v then None else Some v)"

text \<open>\<^verbatim>\<open>strings.Split(s, sep)\<close> for a one-byte separator: always at least one piece.\<close>

fun Split :: "string \<Rightarrow> char \<Rightarrow> string list" where
  "Split [] sep = [[]]"
| "Split (c # cs) sep =
     (if c = sep then [] # Split cs sep
      else case Split cs sep of [] \<Rightarrow> [[c]] | w # ws \<Rightarrow> (c # w) # ws)"

text \<open>
  \<^verbatim>\<open>strings.Fields\<close> splits around runs of white space as \<^verbatim>\<open>unicode.IsSpace\<close>
  defines it. A string is its UTF-8 bytes; \<open>spaceLen\<close> is the number of bytes of the
  white-space character a string starts with, or 0. (The first byte of each of these
  characters is never a continuation byte, so the decoder always starts a character
  there.)
\<close>

definition spaceLen :: "string \<Rightarrow> nat" where
  "spaceLen s =
     (case s of
        [] \<Rightarrow> 0
      | c # r \<Rightarrow>
          if c \<in> set [CHR 0x09, CHR 0x0A, CHR 0x0B, CHR 0x0C, CHR 0x0D, CHR 0x20] then 1
          else if c = CHR 0xC2 \<and> r \<noteq> [] \<and> hd r \<in> set [CHR 0x85, CHR 0xA0] then 2
          else if take 3 s \<in> set
             [[CHR 0xE1, CHR 0x9A, CHR 0x80],
              [CHR 0xE2, CHR 0x80, CHR 0x80], [CHR 0xE2, CHR 0x80, CHR 0x81],
              [CHR 0xE2, CHR 0x80, CHR 0x82], [CHR 0xE2, CHR 0x80, CHR 0x83],
              [CHR 0xE2, CHR 0x80, CHR 0x84], [CHR 0xE2, CHR 0x80, CHR 0x85],
              [CHR 0xE2, CHR 0x80, CHR 0x86], [CHR 0xE2, CHR 0x80, CHR 0x87],
              [CHR 0xE2, CHR 0x80, CHR 0x88], [CHR 0xE2, CHR 0x80, CHR 0x89],
              [CHR 0xE2, CHR 0x80, CHR 0x8A], [CHR 0xE2, CHR 0x80, CHR 0xA8],
              [CHR 0xE2, CHR 0x80, CHR 0xA9], [CHR 0xE2, CHR 0x80, CHR 0xAF],
              [CHR 0xE2, CHR 0x81, CHR 0x9F], [CHR 0xE3, CHR 0x80, CHR 0x80]] then 3
          else 0)"

function fieldsFrom :: "string \<Rightarrow> string \<Rightarrow> string list" where
  "fieldsFrom cur [] = (if cur = [] then [] else [cur])"
| "fieldsFrom cur (c # cs) =
     (let n = spaceLen (c # cs)
      in if n = 0 then fieldsFrom (cur @ [c]) cs
         else (if cur = [] then [] else [cur]) @ fieldsFrom [] (drop n (c # cs)))"
  by pat_completeness auto
termination
  by (relation "measure (\<lambda>(cur, s). length s)") auto

definition Fields :: "string \<Rightarrow> string list" where
  "Fields s = fieldsFrom [] s"

section \<open>The next-date calculator (\<^verbatim>\<open>pkg/api/nextdate.go\<close>)\<close>

text \<open>
  The errors of \<^verbatim>\<open>NextDate\<close> are \<^verbatim>\<open>fmt.Errorf\<close> messages; each constructor stands
  for the messages of one kind: the empty rule, the start date that does not parse, the
  missing parameter (of \<^verbatim>\<open>d\<close>, \<^verbatim>\<open>w\<close>, \<^verbatim>\<open>m\<close>), the parameter that is not a number
  or is out of range, and the unsupported first token. \<open>InvalidRule\<close> and
  \<open>UnknownRuleKind\<close> are the errors of \<^verbatim>\<open>checkRepeat\<close>, \<open>InvalidDate\<close> and
  \<open>InvalidRecurrence\<close> those of \<^verbatim>\<open>checkDate\<close>.
\<close>

datatype error =
    EmptyRule
  | InvalidStartDate
  | MissingRuleParameter
  | InvalidRuleParameter
  | UnsupportedRuleKind
  | InvalidRule
  | UnknownRuleKind
  | InvalidDate
  | InvalidRecurrence

text \<open>\<^verbatim>\<open>afterNow\<close>: both moments are cut to midnight UTC of their own calendar day;
  true when the day of \<open>date\<close> is not before the day of \<open>now\<close>.\<close>

definition afterNow :: "Time \<Rightarrow> Time \<Rightarrow> bool" where
  "afterNow date now =
     (let (y1, m1, d1) = dateOf date;
          (y2, m2, d2) = dateOf now;
          dateZero = timeDate y1 m1 d1 0 0 0 0 UTC;
          nowZero = timeDate y2 m2 d2 0 0 0 0 UTC
      in \<not> Before dateZero nowZero)"

text \<open>
  The four \<^verbatim>\<open>for\<close> loops. Each advances the date first and tests afterwards. A loop
  that does not come to an end has the value \<open>None\<close>.
\<close>

partial_function (option) dailyLoop :: "int \<Rightarrow> Time \<Rightarrow> Time \<Rightarrow> Time option" where
  "dailyLoop days now date =
     (let date' = AddDate date 0 0 days
      in if afterNow date' now then Some date' else dailyLoop days now date')"

partial_function (option) yearlyLoop :: "Time \<Rightarrow> Time \<Rightarrow> Time option" where
  "yearlyLoop now date =
     (let date' = AddDate date 1 0 0
      in if afterNow date' now then Some date' else yearlyLoop now date')"

definition isoWeekday :: "Time \<Rightarrow> int" where
  "isoWeekday date = (let weekday = Weekday date in if weekday = 0 then 7 else weekday)"

partial_function (option) weeklyLoop :: "bool list \<Rightarrow> Time \<Rightarrow> Time \<Rightarrow> Time option" where
  "weeklyLoop weekdays now date =
     (let date' = AddDate date 0 0 1;
          weekday = isoWeekday date'
      in if weekdays ! nat weekday \<and> After date' now then Some date'
         else weeklyLoop weekdays now date')"

text \<open>\<open>lastDay\<close> is \<^verbatim>\<open>time.Date(year, time.Month(month)+1, 0, 0, 0, 0, 0, time.UTC).Day()\<close>.\<close>

definition lastDay :: "int \<Rightarrow> int \<Rightarrow> int" where
  "lastDay year month = Day (timeDate year (month + 1) 0 0 0 0 0 UTC)"

definition isMatch :: "bool list \<Rightarrow> bool \<Rightarrow> bool \<Rightarrow> Time \<Rightarrow> bool" where
  "isMatch dayFlags hasMinus1 hasMinus2 date =
     (let day = Day date; month = Month date; year = Year date
      in dayFlags ! nat day
         \<or> (hasMinus1 \<and> day = lastDay year month)
         \<or> (hasMinus2 \<and> day = lastDay year month - 1))"

partial_function (option) monthlyLoop ::
  "bool list \<Rightarrow> bool \<Rightarrow> bool \<Rightarrow> bool list \<Rightarrow> Time \<Rightarrow> Time \<Rightarrow> Time option" where
  "monthlyLoop dayFlags hasMinus1 hasMinus2 monthFlags now date =
     (let date' = AddDate date 0 0 1
      in if \<not> monthFlags ! nat (Month date')
         then monthlyLoop dayFlags hasMinus1 hasMinus2 monthFlags now date'
         else if isMatch dayFlags hasMinus1 hasMinus2 date' \<and> After date' now
         then Some date'
         else monthlyLoop dayFlags hasMinus1 hasMinus2 monthFlags now date')"

declare dailyLoop.simps [code]
declare yearlyLoop.simps [code]
declare weeklyLoop.simps [code]
declare monthlyLoop.simps [code]

text \<open>The loops that read the lists of the rule into the flag arrays.\<close>

fun parseWeekdays :: "string list \<Rightarrow> bool list \<Rightarrow> error + bool list" where
  "parseWeekdays [] weekdays = Inr weekdays"
| "parseWeekdays (w # ws) weekdays =
     (case Atoi w of
        None \<Rightarrow> Inl InvalidRuleParameter
      | Some dayNum \<Rightarrow>
          if dayNum < 1 \<or> dayNum > 7 then Inl InvalidRuleParameter
          else parseWeekdays ws (weekdays[nat dayNum := True]))"

fun parseDays :: "string list \<Rightarrow> bool list \<times> bool \<times> bool \<Rightarrow> error + bool list \<times> bool \<times> bool" where
  "parseDays [] st = Inr st"
| "parseDays (d # ds) (dayFlags, hasMinus1, hasMinus2) =
     (case Atoi d of
        None \<Rightarrow> Inl InvalidRuleParameter
      | Some dayNum \<Rightarrow>
          if dayNum = -1 then parseDays ds (dayFlags, True, hasMinus2)
          else if dayNum = -2 then parseDays ds (dayFlags, hasMinus1, True)
          else if dayNum \<ge> 1 \<and> dayNum \<le> 31
          then parseDays ds (dayFlags[nat dayNum := True], hasMinus1, hasMinus2)
          else Inl InvalidRuleParameter)"

fun parseMonths :: "string list \<Rightarrow> bool list \<Rightarrow> error + bool list" where
  "parseMonths [] monthFlags = Inr monthFlags"
| "parseMonths (m # ms) monthFlags =
     (case Atoi m of
        None \<Rightarrow> Inl InvalidRuleParameter
      | Some monthNum \<Rightarrow>
          if monthNum < 1 \<or> monthNum > 12 then Inl InvalidRuleParameter
          else parseMonths ms (monthFlags[nat monthNum := True]))"

definition allMonths :: "bool list" where
  "allMonths = fold (\<lambda>i flags. flags[i := True]) [1..<13] (replicate 13 False)"

text \<open>\<open>NextDate\<close>: \<open>None\<close> when the loop of the rule never ends, \<open>Some (Inl e)\<close> for
  an error, \<open>Some (Inr s)\<close> for the date returned.\<close>

definition NextDate :: "Time \<Rightarrow> string \<Rightarrow> string \<Rightarrow> (error + string) option" where
  "NextDate now dstart repeat =
     (if repeat = [] then Some (Inl EmptyRule)
      else case Parse dstart of
        None \<Rightarrow> Some (Inl InvalidStartDate)
      | Some date \<Rightarrow>
          let parts = Split repeat CHR '' ''
          in if parts ! 0 = ''d'' then
               (if length parts < 2 then Some (Inl MissingRuleParameter)
                else case Atoi (parts ! 1) of
                  None \<Rightarrow> Some (Inl InvalidRuleParameter)
                | Some days \<Rightarrow>
                    if days \<le> 0 \<or> days > 400 then Some (Inl InvalidRuleParameter)
                    else map_option (\<lambda>date. Inr (Format date)) (dailyLoop days now date))
             else if parts ! 0 = ''y'' then
               map_option (\<lambda>date. Inr (Format date)) (yearlyLoop now date)
             else if parts ! 0 = ''w'' then
               (if length parts < 2 then Some (Inl MissingRuleParameter)
                else case parseWeekdays (Split (parts ! 1) CHR '','') (replicate 8 False) of
                  Inl e \<Rightarrow> Some (Inl e)
                | Inr weekdays \<Rightarrow>
                    map_option (\<lambda>date. Inr (Format date)) (weeklyLoop weekdays now date))
             else if parts ! 0 = ''m'' then
               (if length parts < 2 then Some (Inl MissingRuleParameter)
                else case parseDays (Split (parts ! 1) CHR '','')
                            (replicate 32 False, False, False) of
                  Inl e \<Rightarrow> Some (Inl e)
                | Inr (dayFlags, hasMinus1, hasMinus2) \<Rightarrow>
                    (case (if length parts = 3
                           then parseMonths (Split (parts ! 2) CHR '','') (replicate 13 False)
                           else Inr allMonths) of
                       Inl e \<Rightarrow> Some (Inl e)
                     | Inr monthFlags \<Rightarrow>
                         map_option (\<lambda>date. Inr (Format date))
                           (monthlyLoop dayFlags hasMinus1 hasMinus2 monthFlags now date)))
             else Some (Inl UnsupportedRuleKind))"

section \<open>The validator and the normaliser (\<^verbatim>\<open>pkg/api/addtask.go\<close>)\<close>

text \<open>\<open>checkRepeat\<close>: \<open>Inr ()\<close> is the \<^verbatim>\<open>nil\<close> error.\<close>

definition checkRepeat :: "string \<Rightarrow> error + unit" where
  "checkRepeat repeat =
     (if repeat = [] then Inr ()
      else let parts = Fields repeat
        in if length parts < 1 then Inl InvalidRule
           else let unit = parts ! 0
             in if unit = ''d'' then
                  (if length parts \<noteq> 2 then Inl InvalidRule
                   else case Atoi (parts ! 1) of
                     None \<Rightarrow> Inl InvalidRule
                   | Some num \<Rightarrow> if num \<le> 0 then Inl InvalidRule else Inr ())
                else if unit = ''w'' then
                  (if length parts < 2 then Inl InvalidRule
                   else if list_all (\<lambda>dayStr. case Atoi dayStr of
                               None \<Rightarrow> False
                             | Some dayNum \<Rightarrow> \<not> (dayNum < 1 \<or> dayNum > 7))
                             (Split (parts ! 1) CHR '','')
                   then Inr () else Inl InvalidRule)
                else if unit = ''m'' then
                  (if length parts < 2 then Inl InvalidRule
                   else if list_all (\<lambda>dayStr. case Atoi dayStr of
                               None \<Rightarrow> False
                             | Some dayNum \<Rightarrow> \<not> (dayNum < -2 \<or> dayNum > 31 \<or> dayNum = 0))
                             (Split (parts ! 1) CHR '','')
                   then Inr () else Inl InvalidRule)
                else if unit = ''y'' then
                  (if length parts \<noteq> 1 then Inl InvalidRule else Inr ())
                else Inl UnknownRuleKind)"

record Task =
  ID :: string
  Date :: string
  Title :: string
  Comment :: string
  Repeat :: string

text \<open>\<^verbatim>\<open>startOfDay\<close>: \<^verbatim>\<open>time.Date\<close> of the date of \<open>t\<close> at 00:00:00 in the location of
  \<open>t\<close>, so with the offset that the location has at that midnight, which on the day of a
  clock change is not the offset of \<open>t\<close>.\<close>

definition startOfDay :: "Time \<Rightarrow> Time" where
  "startOfDay t = (let (y, m, d) = dateOf t in timeDate y m d 0 0 0 0 (loc t))"

text \<open>\<open>checkDate\<close>, with the \<^verbatim>\<open>time.Now()\<close> it reads as its first argument. The task
  is returned as the call leaves it.\<close>

definition checkDate :: "Time \<Rightarrow> Task \<Rightarrow> (error + Task) option" where
  "checkDate now task0 =
     (let task = (if Date task0 = [] then task0\<lparr>Date := Format now\<rparr> else task0)
      in case Parse (Date task) of
        None \<Rightarrow> Some (Inl InvalidDate)
      | Some t \<Rightarrow>
          if Repeat task \<noteq> [] then
            (case NextDate now (Date task) (Repeat task) of
               None \<Rightarrow> None
             | Some (Inl e) \<Rightarrow> Some (Inl InvalidRecurrence)
             | Some (Inr next) \<Rightarrow>
                 if \<not> After t (startOfDay now) then Some (Inr (task\<lparr>Date := next\<rparr>))
                 else Some (Inr task))
          else if Before t (startOfDay now) then Some (Inr (task\<lparr>Date := Format now\<rparr>))
          else Some (Inr task))"

section \<open>The calendar functions are inverse to each other\<close>

lemma mod_succ_zero_iff:
  fixes a b q r :: int
  assumes "0 \<le> r" "r < b" "a = b * q + r + 1"
  shows "a mod b = 0 \<longleftrightarrow> r = b - 1"
proof (cases "r = b - 1")
  case True
  then have "a = b * (q + 1)" using assms by (simp add: algebra_simps)
  then show ?thesis using True by simp
next
  case False
  have "a mod b = r + 1"
    by (rule int_mod_pos_eq [where q = q]) (use assms False in auto)
  then show ?thesis using assms False by auto
qed

lemma absYear_sound:
  assumes "absYear z = (y, yd)"
  shows "daysSinceEpoch y + yd = z \<and> 0 \<le> yd \<and> yd < (if isLeap y then 366 else 365)"
proof -
  define n400 where "n400 = z div 146097"
  define d1 where "d1 = z - 146097 * n400"
  define n100 where "n100 = (if d1 div 36524 = 4 then 3 else d1 div 36524)"
  define d2 where "d2 = d1 - 36524 * n100"
  define n4 where "n4 = d2 div 1461"
  define d3 where "d3 = d2 - 1461 * n4"
  define n1 where "n1 = (if d3 div 365 = 4 then 3 else d3 div 365)"
  have "absYear z = (400 * n400 + 100 * n100 + 4 * n4 + n1 + 1, d3 - 365 * n1)"
    unfolding absYear_def Let_def n1_def d3_def n4_def d2_def n100_def d1_def n400_def
    by (rule refl)
  with assms have y: "y = 400 * n400 + 100 * n100 + 4 * n4 + n1 + 1"
    and yd: "yd = d3 - 365 * n1"
    by simp_all
  have d1: "0 \<le> d1" "d1 < 146097"
    unfolding d1_def n400_def by (simp_all add: minus_mult_div_eq_mod)
  have n100: "0 \<le> n100" "n100 \<le> 3"
    using d1 unfolding n100_def by auto
  have d2: "0 \<le> d2" "d2 \<le> 36524" "n100 < 3 \<Longrightarrow> d2 < 36524"
    using d1 unfolding d2_def n100_def by (auto split: if_splits)
  have n4: "0 \<le> n4" "n4 \<le> 24"
    using d2 unfolding n4_def by auto
  have d3: "0 \<le> d3" "d3 < 1461" "n4 = 24 \<Longrightarrow> d3 = 1460 \<Longrightarrow> d2 = 36524"
    unfolding d3_def n4_def by (simp_all add: minus_mult_div_eq_mod)
  have n1: "0 \<le> n1" "n1 \<le> 3"
    using d3 unfolding n1_def by auto
  have ydr: "0 \<le> yd" "yd \<le> 365" "yd = 365 \<Longrightarrow> n1 = 3 \<and> d3 = 1460"
    using d3 unfolding yd n1_def by (auto split: if_splits)
  have q400: "(y - 1) div 400 = n400"
    by (rule int_div_pos_eq [where r = "100 * n100 + 4 * n4 + n1"])
       (use y n100 n4 n1 in simp_all)
  have q100: "(y - 1) div 100 = 4 * n400 + n100"
    by (rule int_div_pos_eq [where r = "4 * n4 + n1"])
       (use y n100 n4 n1 in simp_all)
  have q4: "(y - 1) div 4 = 100 * n400 + 25 * n100 + n4"
    by (rule int_div_pos_eq [where r = "n1"])
       (use y n100 n4 n1 in simp_all)
  have sum: "daysSinceEpoch y + yd = z"
    unfolding daysSinceEpoch_def Let_def q400 q100 q4
    unfolding y yd d3_def d2_def d1_def by simp
  have "y mod 4 = 0 \<longleftrightarrow> n1 = 4 - 1"
    by (rule mod_succ_zero_iff [where q = "100 * n400 + 25 * n100 + n4"])
       (use y n1 in simp_all)
  then have m4: "y mod 4 = 0 \<longleftrightarrow> n1 = 3" by simp
  have "y mod 100 = 0 \<longleftrightarrow> 4 * n4 + n1 = 100 - 1"
    by (rule mod_succ_zero_iff [where q = "4 * n400 + n100"])
       (use y n1 n4 in simp_all)
  then have m100: "y mod 100 = 0 \<longleftrightarrow> n1 = 3 \<and> n4 = 24"
    using n1 n4 by auto
  have "y mod 400 = 0 \<longleftrightarrow> 100 * n100 + 4 * n4 + n1 = 400 - 1"
    by (rule mod_succ_zero_iff [where q = "n400"])
       (use y n1 n4 n100 in simp_all)
  then have m400: "y mod 400 = 0 \<longleftrightarrow> n1 = 3 \<and> n4 = 24 \<and> n100 = 3"
    using n1 n4 n100 by auto
  have "yd < (if isLeap y then 366 else 365)"
  proof (cases "yd = 365")
    case True
    then have a: "n1 = 3" "d3 = 1460" using ydr by simp_all
    have "n4 = 24 \<Longrightarrow> n100 = 3"
      using d3(3) a d2(3) n100 by fastforce
    then have "isLeap y"
      unfolding isLeap_def m4 m100 m400 using a by blast
    then show ?thesis using ydr by simp
  next
    case False
    then show ?thesis using ydr by simp
  qed
  with sum ydr show ?thesis by simp
qed

lemma monthDay_sound:
  assumes "0 \<le> day" "day < 365" "monthDay day = (m, d)"
  shows "1 \<le> m \<and> m \<le> 12 \<and> 1 \<le> d \<and> d \<le> daysBefore (m + 1) - daysBefore m
         \<and> daysBefore m + d - 1 = day \<and> (3 \<le> m \<longleftrightarrow> 59 \<le> day)"
proof -
  define k where "k = day div 31"
  have k: "0 \<le> k" "k \<le> 11" "31 * k \<le> day" "day < 31 * k + 31"
    using assms(1,2) unfolding k_def by auto
  have md: "(m, d) = (if day \<ge> daysBefore (k + 2) then (k + 2, day - daysBefore (k + 2) + 1)
         else (k + 1, day - daysBefore (k + 1) + 1))"
    using assms(3) unfolding monthDay_def Let_def k_def by simp
  from k(1,2) consider "k = 0" | "k = 1" | "k = 2" | "k = 3" | "k = 4" | "k = 5"
    | "k = 6" | "k = 7" | "k = 8" | "k = 9" | "k = 10" | "k = 11"
    by atomize_elim arith
  then show ?thesis
    using md k(3,4) assms(2)
    by cases (simp_all add: daysBefore_def split: if_splits)
qed

lemma dateToDays_month:
  assumes "1 \<le> m" "m \<le> 12"
  shows "dateToDays y m d =
     daysSinceEpoch y + daysBefore m + (if isLeap y \<and> 3 \<le> m then 1 else 0) + (d - 1)"
proof -
  have "(m - 1) div 12 = 0" "(m - 1) mod 12 + 1 = m"
    using assms by simp_all
  then show ?thesis
    by (simp add: dateToDays_def Let_def)
qed

lemma absDate_sound:
  assumes "absDate z = (y, m, d)"
  shows "1 \<le> m \<and> m \<le> 12 \<and> 1 \<le> d \<and> d \<le> daysIn m y \<and> dateToDays y m d = z"
proof -
  obtain y' yd where ay: "absYear z = (y', yd)" by (cases "absYear z")
  note s = absYear_sound [OF ay]
  show ?thesis
  proof (cases "isLeap y' \<and> yd = 59")
    case True
    then have "y = y'" "m = 2" "d = 29"
      using assms ay by (simp_all add: absDate_def)
    then show ?thesis
      using s True by (simp add: dateToDays_month daysIn_def daysBefore_def)
  next
    case False
    define day where "day = (if isLeap y' \<and> yd > 59 then yd - 1 else yd)"
    have y: "y = y'" and md: "monthDay day = (m, d)"
      using assms ay False by (auto simp add: absDate_def day_def Let_def split: prod.splits)
    have rng: "0 \<le> day" "day < 365"
      using s False unfolding day_def by (auto split: if_splits)
    note ms = monthDay_sound [OF rng md]
    have adj: "(isLeap y' \<and> 3 \<le> m) \<longleftrightarrow> (isLeap y' \<and> yd > 59)"
      using ms False unfolding day_def by (auto split: if_splits)
    have "dateToDays y m d = daysSinceEpoch y' + day + (if isLeap y' \<and> yd > 59 then 1 else 0)"
      using ms adj by (simp add: dateToDays_month y)
    also have "\<dots> = z"
      using s unfolding day_def by simp
    finally have r: "dateToDays y m d = z" .
    have "d \<le> daysIn m y"
      using ms unfolding daysIn_def by (auto simp add: daysBefore_def)
    with r ms show ?thesis by simp
  qed
qed

lemma div_pred:
  fixes y k :: int
  assumes "0 < k"
  shows "(y - 1) div k = y div k - (if y mod k = 0 then 1 else 0)"
proof (cases "y mod k = 0")
  case True
  have "(y - 1) div k = y div k - 1"
  proof (rule int_div_pos_eq [where r = "k - 1"])
    have "y = k * (y div k)" using True by auto
    then show "y - 1 = k * (y div k - 1) + (k - 1)"
      by (simp add: algebra_simps)
  qed (use assms in simp_all)
  then show ?thesis using True by simp
next
  case False
  have "(y - 1) div k = y div k"
  proof (rule int_div_pos_eq [where r = "y mod k - 1"])
    show "y - 1 = k * (y div k) + (y mod k - 1)" by simp
    have "0 \<le> y mod k" using assms by simp
    then show "0 \<le> y mod k - 1" using False by simp
    have "y mod k < k" using assms by simp
    then show "y mod k - 1 < k" by simp
  qed
  then show ?thesis using False by simp
qed

lemma daysSinceEpoch_Suc:
  "daysSinceEpoch (y + 1) = daysSinceEpoch y + (if isLeap y then 366 else 365)"
proof -
  define q4 q100 q400 where "q4 = y div 4" and "q100 = y div 100" and "q400 = y div 400"
  define c4 c100 c400 where "c4 \<longleftrightarrow> y mod 4 = 0" and "c100 \<longleftrightarrow> y mod 100 = 0"
    and "c400 \<longleftrightarrow> y mod 400 = 0"
  have p: "(y - 1) div 4 = q4 - (if c4 then 1 else 0)"
    "(y - 1) div 100 = q100 - (if c100 then 1 else 0)"
    "(y - 1) div 400 = q400 - (if c400 then 1 else 0)"
    unfolding q4_def q100_def q400_def c4_def c100_def c400_def
    by (simp_all only: div_pred [of _ y] zero_less_numeral)
  have e0: "daysSinceEpoch y = 365 * (y - 1) + (q4 - (if c4 then 1 else 0))
      - (q100 - (if c100 then 1 else 0)) + (q400 - (if c400 then 1 else 0))"
    unfolding daysSinceEpoch_def Let_def p by (rule refl)
  have e1: "daysSinceEpoch (y + 1) = 365 * y + q4 - q100 + q400"
    unfolding daysSinceEpoch_def Let_def q4_def q100_def q400_def by simp
  have i1: "c400 \<Longrightarrow> c100"
    unfolding c400_def c100_def using mod_mod_cancel [of 100 400 y] by simp
  have i2: "c100 \<Longrightarrow> c4"
    unfolding c4_def c100_def using mod_mod_cancel [of 4 100 y] by simp
  have l: "isLeap y \<longleftrightarrow> c4 \<and> (\<not> c100 \<or> c400)"
    unfolding isLeap_def c4_def c100_def c400_def by (rule refl)
  show ?thesis
    unfolding e0 e1 l using i1 i2 by (cases c4; cases c100; cases c400) simp_all
qed

lemma daysSinceEpoch_mono:
  assumes "y \<le> y'"
  shows "daysSinceEpoch y \<le> daysSinceEpoch y'"
  using assms
proof (induction y' rule: int_ge_induct)
  case base
  show ?case by simp
next
  case (step i)
  then show ?case by (simp add: daysSinceEpoch_Suc)
qed

lemma absYear_complete:
  assumes "0 \<le> yd" "yd < (if isLeap y then 366 else 365)"
  shows "absYear (daysSinceEpoch y + yd) = (y, yd)"
proof -
  obtain y' yd' where ay: "absYear (daysSinceEpoch y + yd) = (y', yd')"
    by (cases "absYear (daysSinceEpoch y + yd)")
  note s = absYear_sound [OF ay]
  have "\<not> y' < y"
  proof
    assume "y' < y"
    then have "daysSinceEpoch (y' + 1) \<le> daysSinceEpoch y"
      by (intro daysSinceEpoch_mono) simp
    then show False using s assms by (simp add: daysSinceEpoch_Suc split: if_splits)
  qed
  moreover have "\<not> y < y'"
  proof
    assume "y < y'"
    then have "daysSinceEpoch (y + 1) \<le> daysSinceEpoch y'"
      by (intro daysSinceEpoch_mono) simp
    then show False using s assms by (simp add: daysSinceEpoch_Suc split: if_splits)
  qed
  ultimately have "y' = y" by simp
  with s ay show ?thesis by simp
qed

lemma daysBefore_step:
  assumes "1 \<le> a" "a \<le> 12"
  shows "daysBefore a < daysBefore (a + 1)"
proof -
  from assms consider "a = 1" | "a = 2" | "a = 3" | "a = 4" | "a = 5" | "a = 6"
    | "a = 7" | "a = 8" | "a = 9" | "a = 10" | "a = 11" | "a = 12"
    by atomize_elim arith
  then show ?thesis
    by cases (simp_all add: daysBefore_def)
qed

lemma daysBefore_mono:
  assumes "a \<le> b" "1 \<le> a" "b \<le> 13"
  shows "daysBefore a \<le> daysBefore b"
  using assms
proof (induction b rule: int_ge_induct)
  case base
  show ?case by simp
next
  case (step i)
  then show ?case using daysBefore_step [of i] by simp
qed

lemma monthDay_complete:
  assumes "1 \<le> m" "m \<le> 12" "1 \<le> d" "d \<le> daysBefore (m + 1) - daysBefore m"
  shows "monthDay (daysBefore m + d - 1) = (m, d)"
proof -
  define day where "day = daysBefore m + d - 1"
  obtain m' d' where md: "monthDay day = (m', d')" by (cases "monthDay day")
  have lo: "daysBefore m \<le> day" and hi: "day < daysBefore (m + 1)"
    using assms unfolding day_def by simp_all
  have "daysBefore 1 \<le> daysBefore m" "daysBefore (m + 1) \<le> daysBefore 13"
    using assms by (simp_all add: daysBefore_mono)
  then have rng: "0 \<le> day" "day < 365"
    using lo hi by (simp_all add: daysBefore_def)
  note ms = monthDay_sound [OF rng md]
  have lo': "daysBefore m' \<le> day" and hi': "day < daysBefore (m' + 1)"
    using ms by simp_all
  have "\<not> m < m'"
  proof
    assume "m < m'"
    then have "daysBefore (m + 1) \<le> daysBefore m'"
      using assms ms by (intro daysBefore_mono) simp_all
    then show False using hi lo' by simp
  qed
  moreover have "\<not> m' < m"
  proof
    assume "m' < m"
    then have "daysBefore (m' + 1) \<le> daysBefore m"
      using assms ms by (intro daysBefore_mono) simp_all
    then show False using hi' lo by simp
  qed
  ultimately have "m' = m" by simp
  then show ?thesis using ms md unfolding day_def by simp
qed

lemma absDate_complete:
  assumes "1 \<le> m" "m \<le> 12" "1 \<le> d" "d \<le> daysIn m y"
  shows "absDate (dateToDays y m d) = (y, m, d)"
proof -
  define adj :: int where "adj = (if isLeap y \<and> 3 \<le> m then 1 else 0)"
  define yd where "yd = daysBefore m + adj + (d - 1)"
  have z: "dateToDays y m d = daysSinceEpoch y + yd"
    using assms(1,2) by (simp add: dateToDays_month yd_def adj_def)
  have b3: "3 \<le> m \<Longrightarrow> 59 \<le> daysBefore m"
    using daysBefore_mono [of 3 m] assms(2) by (simp add: daysBefore_def)
  have b2: "m \<le> 2 \<Longrightarrow> daysBefore (m + 1) \<le> 59"
    using daysBefore_mono [of "m + 1" 3] assms(1) by (simp add: daysBefore_def)
  have b13: "daysBefore (m + 1) \<le> 365"
    using daysBefore_mono [of "m + 1" 13] assms(1,2) by (simp add: daysBefore_def)
  have b1: "0 \<le> daysBefore m"
    using daysBefore_mono [of 1 m] assms(1,2) by (simp add: daysBefore_def)
  have dIn: "daysIn m y = daysBefore (m + 1) - daysBefore m + (if m = 2 \<and> isLeap y then 1 else 0)"
    by (simp add: daysIn_def daysBefore_def)
  have rng: "0 \<le> yd" "yd < (if isLeap y then 366 else 365)"
    using assms(3,4) b1 b13 b2 unfolding yd_def adj_def dIn by (auto split: if_splits)
  have ay: "absYear (dateToDays y m d) = (y, yd)"
    unfolding z by (rule absYear_complete [OF rng])
  show ?thesis
  proof (cases "isLeap y \<and> yd = 59")
    case True
    from assms(1) consider "m = 1" | "m = 2" | "3 \<le> m" by atomize_elim arith
    then have "m = 2 \<and> d = 29"
    proof cases
      case 1
      then show ?thesis
        using True assms(4) unfolding yd_def adj_def dIn by (simp add: daysBefore_def)
    next
      case 2
      then show ?thesis
        using True unfolding yd_def adj_def by (simp add: daysBefore_def)
    next
      case 3
      then show ?thesis
        using True b3 assms(3) unfolding yd_def adj_def by auto
    qed
    then show ?thesis using True ay by (simp add: absDate_def)
  next
    case False
    define d0 where "d0 = (if isLeap y \<and> yd > 59 then yd - 1 else yd)"
    from assms(1) consider "m = 1" | "m = 2" | "3 \<le> m" by atomize_elim arith
    then have "d0 = daysBefore m + d - 1 \<and> d \<le> daysBefore (m + 1) - daysBefore m"
    proof cases
      case 1
      then show ?thesis
        using False assms(4) unfolding d0_def yd_def adj_def dIn by (simp add: daysBefore_def)
    next
      case 2
      then show ?thesis
        using False assms(4) unfolding d0_def yd_def adj_def dIn
        by (auto simp add: daysBefore_def)
    next
      case 3
      then show ?thesis
        using False b3 assms(3,4) unfolding d0_def yd_def adj_def dIn by auto
    qed
    then have "monthDay d0 = (m, d)"
      using monthDay_complete [OF assms(1,2,3)] by simp
    then show ?thesis
      using False ay by (auto simp add: absDate_def d0_def)
  qed
qed

section \<open>Dates at midnight UTC\<close>

lemma absDays_midnightUTC: "absDays (midnightUTC d) = d"
  by (simp add: absDays_def zoneOffset_def midnightUTC_def UTC_def)

lemma dateOf_midnightUTC: "dateOf (midnightUTC d) = absDate d"
  by (simp add: dateOf_def absDays_midnightUTC)

lemma Clock_midnightUTC: "Clock (midnightUTC d) = (0, 0, 0)"
  by (simp add: Clock_def zoneOffset_def midnightUTC_def UTC_def)

lemma timeDate_midnightUTC: "timeDate y m d 0 0 0 0 UTC = midnightUTC (dateToDays y m d)"
  by (simp add: timeDate_def midnightUTC_def UTC_def)

lemma dateToDays_add: "dateToDays y m (d + n) = dateToDays y m d + n"
  by (simp add: dateToDays_def Let_def)

lemma dateToDays_absDate: "absDate z = (y, m, d) \<Longrightarrow> dateToDays y m d = z"
  using absDate_sound by blast

lemma AddDate_days: "AddDate (midnightUTC d) 0 0 n = midnightUTC (d + n)"
proof -
  obtain y m dd where a: "absDate d = (y, m, dd)" by (cases "absDate d") auto
  have f: "nsec (midnightUTC d) = 0" "loc (midnightUTC d) = UTC"
    by (simp_all add: midnightUTC_def)
  show ?thesis
    unfolding AddDate_def dateOf_midnightUTC Clock_midnightUTC a f
    by (simp add: timeDate_midnightUTC dateToDays_add dateToDays_absDate [OF a])
qed

lemma Before_midnightUTC: "Before (midnightUTC a) (midnightUTC b) \<longleftrightarrow> a < b"
  by (simp add: Before_def midnightUTC_def)

lemma afterNow_iff: "afterNow date now \<longleftrightarrow> absDays now \<le> absDays date"
proof -
  obtain y1 m1 d1 where a: "absDate (absDays date) = (y1, m1, d1)"
    by (cases "absDate (absDays date)") auto
  obtain y2 m2 d2 where b: "absDate (absDays now) = (y2, m2, d2)"
    by (cases "absDate (absDays now)") auto
  show ?thesis
    by (simp add: afterNow_def dateOf_def a b timeDate_midnightUTC Before_midnightUTC
        dateToDays_absDate [OF a] dateToDays_absDate [OF b] not_less)
qed

lemma After_midnightUTC:
  "After (midnightUTC d) now \<longleftrightarrow> sec now < d * 86400 \<or> (sec now = d * 86400 \<and> nsec now < 0)"
  by (auto simp add: After_def midnightUTC_def)

lemma Weekday_midnightUTC: "Weekday (midnightUTC d) = (d + 1) mod 7"
  by (simp add: Weekday_def absDays_midnightUTC)

lemmas Parse_eval = Parse_def digitVal_def daysIn_def isLeap_def daysBefore_def

lemma Parse_midnightUTC:
  assumes "Parse s = Some t"
  shows "\<exists>y m d. t = midnightUTC (dateToDays y m d) \<and> 1 \<le> m \<and> m \<le> 12 \<and> 1 \<le> d \<and> d \<le> daysIn m y"
proof -
  from assms obtain y m d where "t = timeDate y m d 0 0 0 0 UTC"
    "\<not> (m \<le> 0 \<or> 12 < m)" "\<not> (d < 1 \<or> d > daysIn m y)"
    by (auto simp add: Parse_def split: if_splits option.splits)
  then show ?thesis
    by (intro exI [of _ y] exI [of _ m] exI [of _ d]) (simp add: timeDate_midnightUTC)
qed

section \<open>A loop that steps first and tests afterwards\<close>

lemma stepTest_least:
  fixes loop :: "'a \<Rightarrow> 'a option"
  assumes unfold: "\<And>t. loop t = (let t' = step t in if stop t' then Some t' else loop t')"
    and reach: "stop ((step ^^ k) t)" and k: "1 \<le> k"
  shows "\<exists>j. 1 \<le> j \<and> j \<le> k \<and> loop t = Some ((step ^^ j) t) \<and> stop ((step ^^ j) t)
            \<and> (\<forall>i. 1 \<le> i \<and> i < j \<longrightarrow> \<not> stop ((step ^^ i) t))"
  using reach k
proof (induction k arbitrary: t)
  case 0
  then show ?case by simp
next
  case (Suc k)
  show ?case
  proof (cases "stop (step t)")
    case True
    then have "loop t = Some (step t)" by (subst unfold) simp
    with True show ?thesis by (intro exI [of _ 1]) simp
  next
    case False
    with Suc.prems have k1: "1 \<le> k" by (cases k) auto
    have "stop ((step ^^ k) (step t))"
      using Suc.prems(1) by (simp add: funpow_swap1)
    from Suc.IH [OF this k1] obtain j where j: "1 \<le> j" "j \<le> k"
      "loop (step t) = Some ((step ^^ j) (step t))" "stop ((step ^^ j) (step t))"
      "\<forall>i. 1 \<le> i \<and> i < j \<longrightarrow> \<not> stop ((step ^^ i) (step t))"
      by blast
    have l: "loop t = Some ((step ^^ Suc j) t)"
      using False j(3) by (subst unfold) (simp add: funpow_swap1)
    have "\<not> stop ((step ^^ i) t)" if i: "1 \<le> i" "i < Suc j" for i
    proof (cases "i = 1")
      case True
      then show ?thesis using False by simp
    next
      case False
      then obtain i' where "i = Suc i'" "1 \<le> i'" "i' < j"
        using i False by (cases i) auto
      then show ?thesis using j(5) by (simp add: funpow_swap1)
    qed
    then show ?thesis
      using j l by (intro exI [of _ "Suc j"]) (simp add: funpow_swap1)
  qed
qed

section \<open>The daily rule\<close>

lemma funpow_AddDate_days:
  "((\<lambda>t. AddDate t 0 0 n) ^^ k) (midnightUTC d) = midnightUTC (d + int k * n)"
  by (induction k) (simp_all add: AddDate_days algebra_simps)

lemma dailyLoop_least:
  assumes "1 \<le> n"
  shows "\<exists>k\<ge>1. dailyLoop n now (midnightUTC d) = Some (midnightUTC (d + int k * n))
           \<and> absDays now \<le> d + int k * n
           \<and> (\<forall>j. 1 \<le> j \<and> j < k \<longrightarrow> d + int j * n < absDays now)"
proof -
  define k0 where "k0 = max 1 (nat (absDays now - d))"
  have "absDays now - d \<le> int k0" "1 \<le> k0"
    unfolding k0_def by simp_all
  moreover have "int k0 * 1 \<le> int k0 * n"
    using assms by (intro mult_left_mono) simp_all
  ultimately have "absDays now \<le> d + int k0 * n" and k0: "1 \<le> k0"
    by linarith+
  then have reach: "afterNow (((\<lambda>t. AddDate t 0 0 n) ^^ k0) (midnightUTC d)) now"
    by (simp add: funpow_AddDate_days afterNow_iff absDays_midnightUTC)
  from stepTest_least [where loop = "dailyLoop n now" and step = "\<lambda>t. AddDate t 0 0 n"
      and stop = "\<lambda>t. afterNow t now", OF dailyLoop.simps reach \<open>1 \<le> k0\<close>]
  show ?thesis
    by (simp add: funpow_AddDate_days afterNow_iff absDays_midnightUTC not_le) blast
qed

lemma Split_nonempty: "Split s c \<noteq> []"
  by (induction s) (auto split: list.splits)

text \<open>
  Claim C1, as the code has it. For a rule whose first token is \<^verbatim>\<open>d\<close> and whose second
  token is a number \<open>n\<close> from 1 to 400, and a start date that parses, \<open>NextDate\<close>
  returns the start date plus \<open>k * n\<close> days for the smallest \<open>k\<close> that is at least 1
  and brings the date to the calendar day of \<open>now\<close> or later. The start date itself
  (\<open>k = 0\<close>) is never returned.
\<close>

theorem NextDate_daily:
  assumes "Parse dstart = Some start"
    and "Split repeat CHR '' '' = ''d'' # p # rest"
    and "Atoi p = Some n" and "1 \<le> n" and "n \<le> 400"
  shows "\<exists>k\<ge>1. NextDate now dstart repeat = Some (Inr (Format (AddDate start 0 0 (int k * n))))
           \<and> absDays (AddDate start 0 0 (int k * n)) = absDays start + int k * n
           \<and> absDays now \<le> absDays start + int k * n
           \<and> (\<forall>j. 1 \<le> j \<and> j < k \<longrightarrow> absDays start + int j * n < absDays now)"
proof -
  from Parse_midnightUTC [OF assms(1)] obtain d where start: "start = midnightUTC d"
    by blast
  have ne: "repeat \<noteq> []"
    using assms(2) by auto
  from dailyLoop_least [OF assms(4), of now d] obtain k where k: "1 \<le> k"
    "dailyLoop n now (midnightUTC d) = Some (midnightUTC (d + int k * n))"
    "absDays now \<le> d + int k * n"
    "\<forall>j. 1 \<le> j \<and> j < k \<longrightarrow> d + int j * n < absDays now"
    by blast
  have "NextDate now dstart repeat = Some (Inr (Format (midnightUTC (d + int k * n))))"
    using assms ne k(2) by (simp add: NextDate_def start)
  then show ?thesis
    using k by (intro exI [of _ k]) (simp add: start AddDate_days absDays_midnightUTC)
qed

text \<open>
  With \<^verbatim>\<open>d 1\<close> and a start date that is the calendar day of \<open>now\<close>, the start date
  already is on or after that day, and the date returned is the day after it.
\<close>

theorem NextDate_daily_counterexample:
  "Parse ''20250310'' = Some (timeDate 2025 3 10 0 0 0 0 UTC)
   \<and> afterNow (timeDate 2025 3 10 0 0 0 0 UTC) (timeDate 2025 3 10 0 0 0 0 UTC)
   \<and> NextDate (timeDate 2025 3 10 0 0 0 0 UTC) ''20250310'' ''d 1'' = Some (Inr ''20250311'')"
proof -
  have "Parse ''20250310'' = Some (timeDate 2025 3 10 0 0 0 0 UTC)"
    by (simp add: Parse_eval)
  moreover have "afterNow (timeDate 2025 3 10 0 0 0 0 UTC) (timeDate 2025 3 10 0 0 0 0 UTC)"
    by code_simp
  moreover have "NextDate (timeDate 2025 3 10 0 0 0 0 UTC) ''20250310'' ''d 1''
      = Some (Inr ''20250311'')"
    by code_simp
  ultimately show ?thesis by simp
qed


theorem NextDate_daily_witness:
  "NextDate (timeDate 2025 3 10 0 0 0 0 UTC) ''20250301'' ''d 7'' = Some (Inr ''20250315'')"
proof -
  define now where "now = timeDate 2025 3 10 0 0 0 0 UTC"
  define start where "start = timeDate 2025 3 1 0 0 0 0 UTC"
  have p: "Parse ''20250301'' = Some start"
    unfolding start_def by (simp add: Parse_eval)
  have s: "Split ''d 7'' CHR '' '' = ''d'' # ''7'' # []"
    by simp
  have a: "Atoi ''7'' = Some 7"
    by code_simp
  have d: "absDays now = absDays start + 9"
    unfolding now_def start_def by code_simp
  from NextDate_daily [OF p s a, of now] obtain k where k: "1 \<le> k"
    "NextDate now ''20250301'' ''d 7'' = Some (Inr (Format (AddDate start 0 0 (int k * 7))))"
    "absDays now \<le> absDays start + int k * 7"
    "\<forall>j. 1 \<le> j \<and> j < k \<longrightarrow> absDays start + int j * 7 < absDays now"
    by auto
  have "\<not> 2 < k"
    using k(4) [rule_format, of 2] d by auto
  moreover have "2 \<le> k"
    using k(3) d by simp
  ultimately have "k = 2" by simp
  moreover have "Format (AddDate start 0 0 14) = ''20250315''"
    unfolding start_def by code_simp
  ultimately show ?thesis
    using k(2) unfolding now_def by simp
qed

section \<open>The yearly rule\<close>


lemma daysIn_other_year:
  assumes "d \<le> daysIn m y" "(m, d) \<noteq> (2, 29)"
  shows "d \<le> daysIn m y'"
proof (cases "m = 2")
  case True
  then show ?thesis
    using assms by (simp add: daysIn_def daysBefore_def split: if_splits)
next
  case False
  then show ?thesis
    using assms by (simp add: daysIn_def)
qed

lemma dateToDays_next_year:
  assumes "1 \<le> m" "m \<le> 12"
  shows "dateToDays y m d + 365 \<le> dateToDays (y + 1) m d"
  using assms by (simp add: dateToDays_month daysSinceEpoch_Suc)

lemma AddDate_years:
  assumes "absDate d = (y, m, dd)"
  shows "AddDate (midnightUTC d) k 0 0 = midnightUTC (dateToDays (y + k) m dd)"
proof -
  have f: "nsec (midnightUTC d) = 0" "loc (midnightUTC d) = UTC"
    by (simp_all add: midnightUTC_def)
  show ?thesis
    unfolding AddDate_def dateOf_midnightUTC Clock_midnightUTC assms f
    by (simp add: timeDate_midnightUTC)
qed

lemma AddDate_year_grows:
  "\<exists>d'. AddDate (midnightUTC d) 1 0 0 = midnightUTC d' \<and> d + 365 \<le> d'"
proof -
  obtain y m dd where a: "absDate d = (y, m, dd)" by (cases "absDate d") auto
  note s = absDate_sound [OF a]
  have "d + 365 \<le> dateToDays (y + 1) m dd"
    using dateToDays_next_year [of m y dd] s by simp
  then show ?thesis
    using AddDate_years [OF a, of 1] by blast
qed

lemma funpow_AddDate_year:
  "\<exists>d'. ((\<lambda>t. AddDate t 1 0 0) ^^ k) (midnightUTC d) = midnightUTC d' \<and> d + 365 * int k \<le> d'"
proof (induction k)
  case 0
  show ?case by (intro exI [of _ d]) simp
next
  case (Suc k)
  then obtain d1 where d1: "((\<lambda>t. AddDate t 1 0 0) ^^ k) (midnightUTC d) = midnightUTC d1"
    "d + 365 * int k \<le> d1" by blast
  from AddDate_year_grows [of d1] obtain d2 where
    "AddDate (midnightUTC d1) 1 0 0 = midnightUTC d2" "d1 + 365 \<le> d2" by blast
  with d1 show ?case by (intro exI [of _ d2]) simp
qed

lemma funpow_AddDate_year_fixed:
  assumes "1 \<le> m" "m \<le> 12" "1 \<le> dd" "dd \<le> daysIn m y" "(m, dd) \<noteq> (2, 29)"
  shows "((\<lambda>t. AddDate t 1 0 0) ^^ k) (midnightUTC (dateToDays y m dd))
         = midnightUTC (dateToDays (y + int k) m dd)"
proof (induction k)
  case 0
  show ?case by simp
next
  case (Suc k)
  have "dd \<le> daysIn m (y + int k)"
    using assms(4,5) by (rule daysIn_other_year)
  then have "absDate (dateToDays (y + int k) m dd) = (y + int k, m, dd)"
    using assms by (intro absDate_complete) simp_all
  from AddDate_years [OF this, of 1] show ?case
    using Suc by (simp add: algebra_simps)
qed

lemma yearlyLoop_least:
  "\<exists>k\<ge>1. yearlyLoop now (midnightUTC d) = Some (((\<lambda>t. AddDate t 1 0 0) ^^ k) (midnightUTC d))
      \<and> absDays now \<le> absDays (((\<lambda>t. AddDate t 1 0 0) ^^ k) (midnightUTC d))
      \<and> (\<forall>j. 1 \<le> j \<and> j < k \<longrightarrow>
            absDays (((\<lambda>t. AddDate t 1 0 0) ^^ j) (midnightUTC d)) < absDays now)"
proof -
  define k0 where "k0 = max 1 (nat (absDays now - d))"
  have k0: "absDays now - d \<le> int k0" "1 \<le> k0"
    unfolding k0_def by simp_all
  from funpow_AddDate_year [of k0 d] obtain d' where
    d': "((\<lambda>t. AddDate t 1 0 0) ^^ k0) (midnightUTC d) = midnightUTC d'" "d + 365 * int k0 \<le> d'"
    by blast
  have "absDays now \<le> d'"
    using k0 d'(2) by linarith
  then have reach: "afterNow (((\<lambda>t. AddDate t 1 0 0) ^^ k0) (midnightUTC d)) now"
    by (simp add: d'(1) afterNow_iff absDays_midnightUTC)
  from stepTest_least [where loop = "yearlyLoop now" and step = "\<lambda>t. AddDate t 1 0 0"
      and stop = "\<lambda>t. afterNow t now", OF yearlyLoop.simps reach k0(2)]
  show ?thesis
    by (simp add: afterNow_iff not_le) blast
qed

text \<open>
  Claim C6, as the code has it. For a rule whose first token is \<^verbatim>\<open>y\<close> and a start
  date that parses, \<open>NextDate\<close> returns the date reached from the start date by \<open>k\<close>
  steps of one year (\<^verbatim>\<open>AddDate(1, 0, 0)\<close>), for the smallest \<open>k\<close> that is at least 1
  and brings the date to the calendar day of \<open>now\<close> or later. Unless the start date is
  a 29 February, these \<open>k\<close> steps are the start date plus \<open>k\<close> years. The start date
  itself (\<open>k = 0\<close>) is never returned.
\<close>

theorem NextDate_yearly:
  assumes "Parse dstart = Some start"
    and "repeat \<noteq> []" and "Split repeat CHR '' '' ! 0 = ''y''"
  shows "\<exists>k\<ge>1. NextDate now dstart repeat
              = Some (Inr (Format (((\<lambda>t. AddDate t 1 0 0) ^^ k) start)))
           \<and> absDays now \<le> absDays (((\<lambda>t. AddDate t 1 0 0) ^^ k) start)
           \<and> (\<forall>j. 1 \<le> j \<and> j < k \<longrightarrow>
                 absDays (((\<lambda>t. AddDate t 1 0 0) ^^ j) start) < absDays now)
           \<and> ((Month start, Day start) \<noteq> (2, 29) \<longrightarrow>
                 ((\<lambda>t. AddDate t 1 0 0) ^^ k) start = AddDate start (int k) 0 0)"
proof -
  from Parse_midnightUTC [OF assms(1)] obtain y m d where
    start: "start = midnightUTC (dateToDays y m d)"
    and v: "1 \<le> m" "m \<le> 12" "1 \<le> d" "d \<le> daysIn m y"
    by blast
  have a: "absDate (dateToDays y m d) = (y, m, d)"
    using v by (rule absDate_complete)
  have md: "Month start = m" "Day start = d"
    by (simp_all add: Month_def Day_def start dateOf_midnightUTC a)
  from yearlyLoop_least [of now "dateToDays y m d"] obtain k where k: "1 \<le> k"
    "yearlyLoop now start = Some (((\<lambda>t. AddDate t 1 0 0) ^^ k) start)"
    "absDays now \<le> absDays (((\<lambda>t. AddDate t 1 0 0) ^^ k) start)"
    "\<forall>j. 1 \<le> j \<and> j < k \<longrightarrow> absDays (((\<lambda>t. AddDate t 1 0 0) ^^ j) start) < absDays now"
    unfolding start by blast
  have n: "NextDate now dstart repeat = Some (Inr (Format (((\<lambda>t. AddDate t 1 0 0) ^^ k) start)))"
    using assms k(2) by (simp add: NextDate_def)
  have "((\<lambda>t. AddDate t 1 0 0) ^^ k) start = AddDate start (int k) 0 0"
    if "(m, d) \<noteq> (2, 29)"
    unfolding start
    using funpow_AddDate_year_fixed [OF v that, of k] AddDate_years [OF a, of "int k"]
    by simp
  with n k md show ?thesis
    by (intro exI [of _ k]) simp
qed

text \<open>
  With a start date that is the calendar day of \<open>now\<close>, the start date already is on
  or after that day, and the date returned is one year later.
\<close>

theorem NextDate_yearly_counterexample:
  "Parse ''20250310'' = Some (timeDate 2025 3 10 0 0 0 0 UTC)
   \<and> afterNow (timeDate 2025 3 10 0 0 0 0 UTC) (timeDate 2025 3 10 0 0 0 0 UTC)
   \<and> NextDate (timeDate 2025 3 10 0 0 0 0 UTC) ''20250310'' ''y'' = Some (Inr ''20260310'')"
proof -
  have "Parse ''20250310'' = Some (timeDate 2025 3 10 0 0 0 0 UTC)"
    by (simp add: Parse_eval)
  moreover have "afterNow (timeDate 2025 3 10 0 0 0 0 UTC) (timeDate 2025 3 10 0 0 0 0 UTC)"
    by code_simp
  moreover have "NextDate (timeDate 2025 3 10 0 0 0 0 UTC) ''20250310'' ''y''
      = Some (Inr ''20260310'')"
    by code_simp
  ultimately show ?thesis by simp
qed


theorem NextDate_yearly_witness:
  "NextDate (timeDate 2025 3 10 0 0 0 0 UTC) ''20230615'' ''y'' = Some (Inr ''20250615'')"
proof -
  define now where "now = timeDate 2025 3 10 0 0 0 0 UTC"
  define start where "start = timeDate 2023 6 15 0 0 0 0 UTC"
  have p: "Parse ''20230615'' = Some start"
    unfolding start_def by (simp add: Parse_eval)
  have s: "''y'' \<noteq> []" "Split ''y'' CHR '' '' ! 0 = ''y''"
    by simp_all
  have f1: "((\<lambda>t. AddDate t 1 0 0) ^^ 1) start = AddDate start 1 0 0"
    by simp
  have f2: "((\<lambda>t. AddDate t 1 0 0) ^^ 2) start = AddDate (AddDate start 1 0 0) 1 0 0"
    by (simp add: numeral_2_eq_2)
  have e1: "absDays (AddDate start 1 0 0) < absDays now"
    unfolding now_def start_def by code_simp
  have e2: "absDays now \<le> absDays (AddDate (AddDate start 1 0 0) 1 0 0)"
    unfolding now_def start_def by code_simp
  from NextDate_yearly [OF p s, of now] obtain k where k: "1 \<le> k"
    "NextDate now ''20230615'' ''y'' = Some (Inr (Format (((\<lambda>t. AddDate t 1 0 0) ^^ k) start)))"
    "absDays now \<le> absDays (((\<lambda>t. AddDate t 1 0 0) ^^ k) start)"
    "\<forall>j. 1 \<le> j \<and> j < k \<longrightarrow> absDays (((\<lambda>t. AddDate t 1 0 0) ^^ j) start) < absDays now"
    by blast
  have "k \<noteq> 1"
    using k(3) e1 f1 by (metis not_less)
  moreover have "\<not> 2 < k"
    using k(4) [rule_format, of 2] e2 unfolding f2 by auto
  ultimately have "k = 2"
    using k(1) by simp
  moreover have "Format (AddDate (AddDate start 1 0 0) 1 0 0) = ''20250615''"
    unfolding start_def by code_simp
  ultimately show ?thesis
    using k(2) f2 unfolding now_def by simp
qed

section \<open>The weekly rule\<close>

lemma parseWeekdays_sound:
  assumes "parseWeekdays ws wd = Inr wd'"
  shows "length wd' = length wd
         \<and> (\<exists>nums. map Atoi ws = map Some nums \<and> (\<forall>n\<in>set nums. 1 \<le> n \<and> n \<le> 7)
              \<and> (\<forall>i<length wd. wd' ! i = (wd ! i \<or> int i \<in> set nums)))"
  using assms
proof (induction ws arbitrary: wd)
  case Nil
  then show ?case by simp
next
  case (Cons w ws)
  from Cons.prems obtain n where n: "Atoi w = Some n" "1 \<le> n" "n \<le> 7"
    and rec: "parseWeekdays ws (wd[nat n := True]) = Inr wd'"
    by (auto split: option.splits if_splits)
  from Cons.IH [OF rec] obtain nums where len: "length wd' = length wd"
    and nums: "map Atoi ws = map Some nums" "\<forall>n\<in>set nums. 1 \<le> n \<and> n \<le> 7"
    and flags: "\<forall>i<length wd. wd' ! i = ((wd[nat n := True]) ! i \<or> int i \<in> set nums)"
    by auto
  have "wd' ! i = (wd ! i \<or> int i \<in> set (n # nums))" if i: "i < length wd" for i
  proof -
    have "(wd[nat n := True]) ! i = (wd ! i \<or> i = nat n)"
      using i by (cases "i = nat n") simp_all
    moreover have "i = nat n \<longleftrightarrow> int i = n"
      using n(2) by auto
    ultimately show ?thesis
      using flags i by auto
  qed
  then have "\<forall>i<length wd. wd' ! i = (wd ! i \<or> int i \<in> set (n # nums))"
    by blast
  then show ?case
    using len nums n by (intro conjI exI [of _ "n # nums"]) simp_all
qed

lemma weeklyLoop_unfold:
  "weeklyLoop weekdays now t =
     (let t' = AddDate t 0 0 1
      in if weekdays ! nat (isoWeekday t') \<and> After t' now then Some t'
         else weeklyLoop weekdays now t')"
  by (subst weeklyLoop.simps) (simp add: Let_def)

lemma isoWeekday_range: "1 \<le> isoWeekday t \<and> isoWeekday t \<le> 7"
proof -
  have "0 \<le> Weekday t" "Weekday t < 7"
    by (simp_all add: Weekday_def)
  then show ?thesis
    by (simp add: isoWeekday_def Let_def)
qed

lemma isoWeekday_reach:
  assumes "1 \<le> n" "n \<le> 7"
  shows "isoWeekday (midnightUTC (D + (n - D - 1) mod 7)) = n"
proof -
  have "(D + (n - D - 1) mod 7 + 1) mod 7 = (D + 1 + (n - D - 1) mod 7) mod 7"
    by (simp add: ac_simps)
  also have "\<dots> = (D + 1 + (n - D - 1)) mod 7"
    by (rule mod_add_right_eq)
  also have "\<dots> = n mod 7"
    by simp
  finally have "(D + (n - D - 1) mod 7 + 1) mod 7 = n mod 7" .
  moreover have "n mod 7 = (if n = 7 then 0 else n)"
    using assms by simp
  ultimately show ?thesis
    using assms by (simp add: isoWeekday_def Weekday_midnightUTC)
qed

lemma weeklyLoop_total:
  assumes "n \<in> set nums" "1 \<le> n" "n \<le> 7"
    and flags: "\<forall>i<8. weekdays ! i = (int i \<in> set nums)"
  shows "\<exists>k\<ge>1. weeklyLoop weekdays now (midnightUTC d) = Some (midnightUTC (d + int k))
           \<and> isoWeekday (midnightUTC (d + int k)) \<in> set nums
           \<and> After (midnightUTC (d + int k)) now
           \<and> (\<forall>j. 1 \<le> j \<and> j < k \<longrightarrow>
                 \<not> (isoWeekday (midnightUTC (d + int j)) \<in> set nums
                    \<and> After (midnightUTC (d + int j)) now))"
proof -
  define D where "D = max (d + 1) (sec now div 86400 + 1)"
  define d' where "d' = D + (n - D - 1) mod 7"
  define k0 where "k0 = nat (d' - d)"
  have "0 \<le> (n - D - 1) mod 7" by simp
  then have ge: "D \<le> d'" unfolding d'_def by linarith
  then have "d + 1 \<le> d'"
    unfolding D_def by simp
  then have k0: "1 \<le> k0" "d + int k0 = d'"
    unfolding k0_def by simp_all
  have "sec now < (sec now div 86400 + 1) * 86400"
    using div_mult_mod_eq [of "sec now" 86400] pos_mod_bound [of 86400 "sec now"]
    by (simp only: distrib_right)
  also have "\<dots> \<le> d' * 86400"
    using ge unfolding D_def by simp
  finally have after: "After (midnightUTC d') now"
    by (simp add: After_midnightUTC)
  have iso: "isoWeekday (midnightUTC d') = n"
    unfolding d'_def using assms(2,3) by (rule isoWeekday_reach)
  have fp: "((\<lambda>t. AddDate t 0 0 1) ^^ k) (midnightUTC d) = midnightUTC (d + int k)" for k
    using funpow_AddDate_days [where n = 1 and k = k and d = d] by simp
  have listed: "weekdays ! nat (isoWeekday t) \<longleftrightarrow> isoWeekday t \<in> set nums" for t
  proof -
    have "nat (isoWeekday t) < 8" "int (nat (isoWeekday t)) = isoWeekday t"
      using isoWeekday_range [of t] by linarith+
    with flags [rule_format, of "nat (isoWeekday t)"] show ?thesis
      by simp
  qed
  have "weekdays ! nat n"
    using flags [rule_format, of "nat n"] assms(1,2,3) by simp
  then have reach: "(\<lambda>t. weekdays ! nat (isoWeekday t) \<and> After t now)
      (((\<lambda>t. AddDate t 0 0 1) ^^ k0) (midnightUTC d))"
    using after iso by (simp add: fp k0)
  from stepTest_least [where loop = "weeklyLoop weekdays now" and step = "\<lambda>t. AddDate t 0 0 1"
      and stop = "\<lambda>t. weekdays ! nat (isoWeekday t) \<and> After t now",
      OF weeklyLoop_unfold reach k0(1)]
  show ?thesis
    unfolding fp listed by blast
qed

lemma parseWeekdays_complete:
  assumes "map Atoi ws = map Some nums" "\<forall>n\<in>set nums. 1 \<le> n \<and> n \<le> 7"
  shows "\<exists>wd'. parseWeekdays ws wd = Inr wd'
           \<and> (\<forall>i<length wd. wd' ! i = (wd ! i \<or> int i \<in> set nums))"
proof -
  have "\<exists>wd'. parseWeekdays ws wd = Inr wd'"
    using assms
  proof (induction ws arbitrary: wd nums)
    case Nil
    then show ?case by simp
  next
    case (Cons w ws)
    then obtain n nums' where "nums = n # nums'" "Atoi w = Some n"
      "map Atoi ws = map Some nums'"
      by (cases nums) auto
    with Cons.prems(2) Cons.IH [of nums' "wd[nat n := True]"] show ?case
      by auto
  qed
  then obtain wd' where wd': "parseWeekdays ws wd = Inr wd'" by blast
  from parseWeekdays_sound [OF this] obtain nums' where
    "map Atoi ws = map Some nums'"
    "\<forall>i<length wd. wd' ! i = (wd ! i \<or> int i \<in> set nums')"
    by blast
  moreover from this(1) assms(1) have "nums' = nums"
    by (metis list.inj_map_strong option.inject)
  ultimately show ?thesis using wd' by blast
qed

text \<open>
  Claim C7. For a rule whose first token is \<^verbatim>\<open>w\<close> and whose second token is a
  comma-separated list of numbers from 1 to 7, and a start date that parses, \<open>NextDate\<close>
  returns the start date plus \<open>k\<close> days, \<open>k\<close> at least 1: the ISO weekday of that day
  (Monday 1 to Saturday 6, Sunday 7) is one of the numbers of the list, its midnight UTC
  is after \<open>now\<close> as a moment, and no day from the day after the start date up to the
  day before it has both.
\<close>

theorem NextDate_weekly:
  assumes "Parse dstart = Some start"
    and "Split repeat CHR '' '' = ''w'' # p # rest"
    and "map Atoi (Split p CHR '','') = map Some nums"
    and "\<forall>n\<in>set nums. 1 \<le> n \<and> n \<le> 7"
  shows "\<exists>k\<ge>1. NextDate now dstart repeat = Some (Inr (Format (AddDate start 0 0 (int k))))
           \<and> isoWeekday (AddDate start 0 0 (int k)) \<in> set nums
           \<and> After (AddDate start 0 0 (int k)) now
           \<and> (\<forall>j. 1 \<le> j \<and> j < k \<longrightarrow>
                 \<not> (isoWeekday (AddDate start 0 0 (int j)) \<in> set nums
                    \<and> After (AddDate start 0 0 (int j)) now))"
proof -
  from Parse_midnightUTC [OF assms(1)] obtain d where start: "start = midnightUTC d"
    by blast
  have ne: "repeat \<noteq> []"
    using assms(2) by auto
  from parseWeekdays_complete [OF assms(3,4), of "replicate 8 False"]
  obtain weekdays where wd: "parseWeekdays (Split p CHR '','') (replicate 8 False) = Inr weekdays"
    and flags: "\<forall>i<8. weekdays ! i = (int i \<in> set nums)"
    by auto
  have "nums \<noteq> []"
    using assms(3) Split_nonempty [of p "CHR '',''"] by auto
  then obtain n where n: "n \<in> set nums"
    by (cases nums) auto
  with assms(4) have "1 \<le> n" "n \<le> 7"
    by auto
  from weeklyLoop_total [OF n this flags, of now d] obtain k where k: "1 \<le> k"
    "weeklyLoop weekdays now start = Some (midnightUTC (d + int k))"
    "isoWeekday (midnightUTC (d + int k)) \<in> set nums"
    "After (midnightUTC (d + int k)) now"
    "\<forall>j. 1 \<le> j \<and> j < k \<longrightarrow>
       \<not> (isoWeekday (midnightUTC (d + int j)) \<in> set nums \<and> After (midnightUTC (d + int j)) now)"
    unfolding start by blast
  have "NextDate now dstart repeat = Some (Inr (Format (midnightUTC (d + int k))))"
    using assms(1,2) ne wd k(2) by (simp add: NextDate_def)
  with k show ?thesis
    unfolding start AddDate_days by (intro exI [of _ k]) simp
qed

theorem NextDate_weekly_witness:
  "NextDate (timeDate 2025 3 10 15 30 0 0 UTC) ''20250301'' ''w 1,3'' = Some (Inr ''20250312'')
   \<and> (\<exists>k\<ge>1. ''20250312'' = Format (AddDate (timeDate 2025 3 1 0 0 0 0 UTC) 0 0 (int k))
        \<and> isoWeekday (AddDate (timeDate 2025 3 1 0 0 0 0 UTC) 0 0 (int k)) \<in> set [1, 3]
        \<and> After (AddDate (timeDate 2025 3 1 0 0 0 0 UTC) 0 0 (int k))
             (timeDate 2025 3 10 15 30 0 0 UTC))"
proof -
  have p: "Parse ''20250301'' = Some (timeDate 2025 3 1 0 0 0 0 UTC)"
    by (simp add: Parse_eval)
  have s: "Split ''w 1,3'' CHR '' '' = ''w'' # ''1,3'' # []"
    by simp
  have a: "map Atoi (Split ''1,3'' CHR '','') = map Some [1, 3]"
    by code_simp
  have r: "\<forall>n\<in>set [1, 3 :: int]. 1 \<le> n \<and> n \<le> 7"
    by simp
  have e: "NextDate (timeDate 2025 3 10 15 30 0 0 UTC) ''20250301'' ''w 1,3''
      = Some (Inr ''20250312'')"
    by code_simp
  from NextDate_weekly [OF p s a r, of "timeDate 2025 3 10 15 30 0 0 UTC"] e
  show ?thesis
    by auto
qed

section \<open>The monthly rule\<close>




lemma monthlyLoop_partial:
  assumes "monthlyLoop dayFlags hasMinus1 hasMinus2 monthFlags now date = Some r"
  shows "\<forall>d. date = midnightUTC d \<longrightarrow>
           (\<exists>d'. r = midnightUTC d' \<and> d < d' \<and> monthFlags ! nat (Month r)
               \<and> isMatch dayFlags hasMinus1 hasMinus2 r \<and> After r now)"
proof (rule monthlyLoop.raw_induct [where P = "\<lambda>df h1 h2 mf nw dt r.
    \<forall>d. dt = midnightUTC d \<longrightarrow>
      (\<exists>d'. r = midnightUTC d' \<and> d < d' \<and> mf ! nat (Month r) \<and> isMatch df h1 h2 r \<and> After r nw)",
    OF _ assms])
  fix loop df h1 h2 mf nw dt r
  assume IH: "\<And>df h1 h2 mf nw dt r. loop df h1 h2 mf nw dt = Some r \<Longrightarrow>
      \<forall>d. dt = midnightUTC d \<longrightarrow>
        (\<exists>d'. r = midnightUTC d' \<and> d < d' \<and> mf ! nat (Month r) \<and> isMatch df h1 h2 r \<and> After r nw)"
    and body: "(let date' = AddDate dt 0 0 1
      in if \<not> mf ! nat (Month date') then loop df h1 h2 mf nw date'
         else if isMatch df h1 h2 date' \<and> After date' nw then Some date'
         else loop df h1 h2 mf nw date') = Some r"
  show "\<forall>d. dt = midnightUTC d \<longrightarrow>
      (\<exists>d'. r = midnightUTC d' \<and> d < d' \<and> mf ! nat (Month r) \<and> isMatch df h1 h2 r \<and> After r nw)"
  proof (intro allI impI)
    fix d
    assume "dt = midnightUTC d"
    then have step: "AddDate dt 0 0 1 = midnightUTC (d + 1)"
      by (simp add: AddDate_days)
    have b: "(if \<not> mf ! nat (Month (midnightUTC (d + 1)))
         then loop df h1 h2 mf nw (midnightUTC (d + 1))
         else if isMatch df h1 h2 (midnightUTC (d + 1)) \<and> After (midnightUTC (d + 1)) nw
         then Some (midnightUTC (d + 1))
         else loop df h1 h2 mf nw (midnightUTC (d + 1))) = Some r"
      using body unfolding Let_def step .
    show "\<exists>d'. r = midnightUTC d' \<and> d < d' \<and> mf ! nat (Month r)
               \<and> isMatch df h1 h2 r \<and> After r nw"
    proof (cases "mf ! nat (Month (midnightUTC (d + 1)))
        \<and> isMatch df h1 h2 (midnightUTC (d + 1)) \<and> After (midnightUTC (d + 1)) nw")
      case True
      with b have "r = midnightUTC (d + 1)" by simp
      with True show ?thesis by (intro exI [of _ "d + 1"]) simp
    next
      case False
      with b have "loop df h1 h2 mf nw (midnightUTC (d + 1)) = Some r"
        by (simp split: if_splits)
      from IH [OF this, rule_format, OF refl] obtain d' where
        "r = midnightUTC d'" "d + 1 < d'" "mf ! nat (Month r)"
        "isMatch df h1 h2 r" "After r nw"
        by blast
      then show ?thesis by (intro exI [of _ d']) simp
    qed
  qed
qed



lemma NextDate_monthly_run:
  assumes "NextDate now dstart repeat = Some (Inr out)"
    and "Split repeat CHR '' '' ! 0 = ''m''"
  shows "\<exists>start dayFlags hasMinus1 hasMinus2 monthFlags r.
    Parse dstart = Some start \<and> 2 \<le> length (Split repeat CHR '' '')
    \<and> parseDays (Split (Split repeat CHR '' '' ! 1) CHR '','') (replicate 32 False, False, False)
       = Inr (dayFlags, hasMinus1, hasMinus2)
    \<and> (if length (Split repeat CHR '' '') = 3
      then parseMonths (Split (Split repeat CHR '' '' ! 2) CHR '','') (replicate 13 False)
      else Inr allMonths) = Inr monthFlags
    \<and> monthlyLoop dayFlags hasMinus1 hasMinus2 monthFlags now start = Some r
    \<and> out = Format r"
proof -
  from assms(1) have ne: "repeat \<noteq> []"
    by (auto simp add: NextDate_def)
  from assms(1) ne obtain start where start: "Parse dstart = Some start"
    by (auto simp add: NextDate_def split: option.splits)
  define parts where "parts = Split repeat CHR '' ''"
  have m: "parts ! 0 = ''m''" using assms(2) by (simp add: parts_def)
  have run: "(if length parts < 2 then Some (Inl MissingRuleParameter)
       else case parseDays (Split (parts ! 1) CHR '','') (replicate 32 False, False, False) of
         Inl e \<Rightarrow> Some (Inl e)
       | Inr (dayFlags, hasMinus1, hasMinus2) \<Rightarrow>
           (case (if length parts = 3
                  then parseMonths (Split (parts ! 2) CHR '','') (replicate 13 False)
                  else Inr allMonths) of
              Inl e \<Rightarrow> Some (Inl e)
            | Inr monthFlags \<Rightarrow>
                map_option (\<lambda>date. Inr (Format date))
                  (monthlyLoop dayFlags hasMinus1 hasMinus2 monthFlags now start)))
      = Some (Inr out)"
    using assms(1) ne start m unfolding NextDate_def parts_def [symmetric] by (simp add: Let_def parts_def [symmetric])
  then have len: "2 \<le> length parts"
    by (simp split: if_splits)
  with run obtain dayFlags hasMinus1 hasMinus2 where
    pd: "parseDays (Split (parts ! 1) CHR '','') (replicate 32 False, False, False)
       = Inr (dayFlags, hasMinus1, hasMinus2)"
    by (cases "parseDays (Split (parts ! 1) CHR '','') (replicate 32 False, False, False)") auto
  with run len obtain monthFlags where
    pm: "(if length parts = 3
          then parseMonths (Split (parts ! 2) CHR '','') (replicate 13 False)
          else Inr allMonths) = Inr monthFlags"
    by (cases "(if length parts = 3
          then parseMonths (Split (parts ! 2) CHR '','') (replicate 13 False)
          else Inr allMonths)") auto
  with run len pd obtain r where
    "monthlyLoop dayFlags hasMinus1 hasMinus2 monthFlags now start = Some r" "out = Format r"
    by auto
  with start len pd pm show ?thesis
    unfolding parts_def
    by (intro exI [of _ start] exI [of _ dayFlags] exI [of _ hasMinus1] exI [of _ hasMinus2]
        exI [of _ monthFlags] exI [of _ r]) simp
qed


lemma daysIn_le_31:
  assumes "1 \<le> m" "m \<le> 12"
  shows "daysIn m y \<le> 31"
proof -
  from assms consider "m = 1" | "m = 2" | "m = 3" | "m = 4" | "m = 5" | "m = 6"
    | "m = 7" | "m = 8" | "m = 9" | "m = 10" | "m = 11" | "m = 12"
    by atomize_elim arith
  then show ?thesis
    by cases (simp_all add: daysIn_def daysBefore_def)
qed

section \<open>Monthly rules that some date satisfies\<close>














section \<open>A monthly rule that no date satisfies\<close>

lemma monthlyLoop_never:
  assumes "\<And>d. \<not> (monthFlags ! nat (Month (midnightUTC d))
                  \<and> isMatch dayFlags hasMinus1 hasMinus2 (midnightUTC d))"
  shows "monthlyLoop dayFlags hasMinus1 hasMinus2 monthFlags now (midnightUTC d0) = None"
proof (cases "monthlyLoop dayFlags hasMinus1 hasMinus2 monthFlags now (midnightUTC d0)")
  case None
  then show ?thesis .
next
  case (Some r)
  from monthlyLoop_partial [OF Some, rule_format, OF refl] assms show ?thesis
    by blast
qed

lemma no_31_February:
  "\<not> (((replicate 13 False)[2 := True]) ! nat (Month (midnightUTC d))
       \<and> isMatch ((replicate 32 False)[31 := True]) False False (midnightUTC d))"
proof
  assume h: "((replicate 13 False)[2 := True]) ! nat (Month (midnightUTC d))
       \<and> isMatch ((replicate 32 False)[31 := True]) False False (midnightUTC d)"
  obtain y m dd where a: "absDate d = (y, m, dd)"
    by (cases "absDate d") auto
  note v = absDate_sound [OF a]
  have ymd: "Month (midnightUTC d) = m" "Day (midnightUTC d) = dd"
    by (simp_all add: Month_def Day_def dateOf_midnightUTC a)
  have "nat m < 13" "nat dd < 32" "nat dd \<noteq> 0"
    using v daysIn_le_31 [of m y] by auto
  with h have "nat m = 2" "nat dd = 31"
    unfolding isMatch_def Let_def ymd
    by (auto simp add: nth_list_update split: if_splits)
  then have "m = 2" "dd = 31" by linarith+
  with v show False
    by (simp add: daysIn_def daysBefore_def split: if_splits)
qed

text \<open>
  Claim C2 at the rule \<^verbatim>\<open>m 31 2\<close>. The validator accepts the rule and the start date
  parses, but no February has a 31st day: the loop of \<open>NextDate\<close> never comes to an
  end, whatever \<open>now\<close> is.
\<close>

theorem NextDate_monthly_diverges:
  "checkRepeat ''m 31 2'' = Inr () \<and> NextDate now ''20240101'' ''m 31 2'' = None"
proof -
  have c: "checkRepeat ''m 31 2'' = Inr ()"
    by code_simp
  have p: "Parse ''20240101'' = Some (midnightUTC (dateToDays 2024 1 1))"
    by (simp add: Parse_eval timeDate_midnightUTC)
  have s: "Split ''m 31 2'' CHR '' '' = [''m'', ''31'', ''2'']"
    by simp
  have pd: "parseDays [''31''] (replicate 32 False, False, False)
      = Inr ((replicate 32 False)[31 := True], False, False)"
    by code_simp
  have pm: "parseMonths [''2''] (replicate 13 False) = Inr ((replicate 13 False)[2 := True])"
    by code_simp
  have "NextDate now ''20240101'' ''m 31 2'' = None"
    unfolding NextDate_def
    by (simp add: p s pd pm Let_def monthlyLoop_never [OF no_31_February]
        del: parseDays.simps parseMonths.simps)
  with c show ?thesis by simp
qed

section \<open>The date returned is after the start date\<close>

lemma weeklyLoop_partial:
  assumes "weeklyLoop weekdays now date = Some r"
  shows "\<forall>d. date = midnightUTC d \<longrightarrow> (\<exists>d'. r = midnightUTC d' \<and> d < d' \<and> After r now)"
proof (rule weeklyLoop.raw_induct [where P = "\<lambda>wd nw dt r.
    \<forall>d. dt = midnightUTC d \<longrightarrow> (\<exists>d'. r = midnightUTC d' \<and> d < d' \<and> After r nw)", OF _ assms])
  fix loop wd nw dt r
  assume IH: "\<And>wd nw dt r. loop wd nw dt = Some r \<Longrightarrow>
      \<forall>d. dt = midnightUTC d \<longrightarrow> (\<exists>d'. r = midnightUTC d' \<and> d < d' \<and> After r nw)"
    and body: "(let date' = AddDate dt 0 0 1; weekday = isoWeekday date'
      in if wd ! nat weekday \<and> After date' nw then Some date'
         else loop wd nw date') = Some r"
  show "\<forall>d. dt = midnightUTC d \<longrightarrow> (\<exists>d'. r = midnightUTC d' \<and> d < d' \<and> After r nw)"
  proof (intro allI impI)
    fix d
    assume "dt = midnightUTC d"
    then have step: "AddDate dt 0 0 1 = midnightUTC (d + 1)"
      by (simp add: AddDate_days)
    have b: "(if wd ! nat (isoWeekday (midnightUTC (d + 1))) \<and> After (midnightUTC (d + 1)) nw
         then Some (midnightUTC (d + 1))
         else loop wd nw (midnightUTC (d + 1))) = Some r"
      using body unfolding Let_def step .
    show "\<exists>d'. r = midnightUTC d' \<and> d < d' \<and> After r nw"
    proof (cases "wd ! nat (isoWeekday (midnightUTC (d + 1))) \<and> After (midnightUTC (d + 1)) nw")
      case True
      with b have "r = midnightUTC (d + 1)" by simp
      with True show ?thesis by (intro exI [of _ "d + 1"]) simp
    next
      case False
      with b have "loop wd nw (midnightUTC (d + 1)) = Some r"
        by (simp split: if_splits)
      from IH [OF this, rule_format, OF refl] obtain d' where
        "r = midnightUTC d'" "d + 1 < d'" "After r nw"
        by blast
      then show ?thesis by (intro exI [of _ d']) simp
    qed
  qed
qed

text \<open>
  What every date returned has: it is the format of a midnight UTC later than the start
  date; after a weekly or a monthly rule this midnight is after \<open>now\<close> as a moment,
  after a daily or a yearly rule its day is not before the day of \<open>now\<close>.
\<close>

lemma NextDate_result:
  assumes "NextDate now dstart repeat = Some (Inr out)"
  shows "\<exists>d d'. Parse dstart = Some (midnightUTC d) \<and> out = Format (midnightUTC d') \<and> d < d'
           \<and> (Split repeat CHR '' '' ! 0 = ''w'' \<or> Split repeat CHR '' '' ! 0 = ''m''
                \<longrightarrow> After (midnightUTC d') now)
           \<and> (Split repeat CHR '' '' ! 0 = ''d'' \<or> Split repeat CHR '' '' ! 0 = ''y''
                \<longrightarrow> absDays now \<le> d')"
proof -
  from assms have ne: "repeat \<noteq> []"
    by (auto simp add: NextDate_def)
  from assms ne obtain start where start: "Parse dstart = Some start"
    by (auto simp add: NextDate_def split: option.splits)
  from Parse_midnightUTC [OF start] obtain d where d: "start = midnightUTC d"
    by blast
  define parts where "parts = Split repeat CHR '' ''"
  have "\<exists>d'. out = Format (midnightUTC d') \<and> d < d'
      \<and> (parts ! 0 = ''w'' \<or> parts ! 0 = ''m'' \<longrightarrow> After (midnightUTC d') now)
      \<and> (parts ! 0 = ''d'' \<or> parts ! 0 = ''y'' \<longrightarrow> absDays now \<le> d')"
  proof -
    consider (daily) "parts ! 0 = ''d''"
      | (yearly) "parts ! 0 \<noteq> ''d''" "parts ! 0 = ''y''"
      | (weekly) "parts ! 0 \<noteq> ''d''" "parts ! 0 \<noteq> ''y''" "parts ! 0 = ''w''"
      | (monthly) "parts ! 0 \<noteq> ''d''" "parts ! 0 \<noteq> ''y''" "parts ! 0 = ''m''"
      | (other) "parts ! 0 \<noteq> ''d''" "parts ! 0 \<noteq> ''y''" "parts ! 0 \<noteq> ''w''" "parts ! 0 \<noteq> ''m''"
      by blast
    then show ?thesis
    proof cases
      case daily
      have run: "(if length parts < 2 then Some (Inl MissingRuleParameter)
          else case Atoi (parts ! 1) of
            None \<Rightarrow> Some (Inl InvalidRuleParameter)
          | Some days \<Rightarrow>
              if days \<le> 0 \<or> days > 400 then Some (Inl InvalidRuleParameter)
              else map_option (\<lambda>date. Inr (Format date)) (dailyLoop days now start))
          = Some (Inr out)"
        using assms ne start daily unfolding NextDate_def parts_def by (simp add: Let_def)
      then obtain n where n: "Atoi (parts ! 1) = Some n"
        by (cases "Atoi (parts ! 1)") (auto split: if_splits)
      with run have n1: "1 \<le> n"
        and loop: "map_option (\<lambda>date. Inr (Format date)) (dailyLoop n now start) = Some (Inr out) "
        by (auto split: if_splits)
      from dailyLoop_least [OF n1, of now d] obtain k where k: "1 \<le> k"
        "dailyLoop n now (midnightUTC d) = Some (midnightUTC (d + int k * n))"
        "absDays now \<le> d + int k * n"
        by blast
      have "1 * 1 \<le> int k * n"
        using k(1) n1 by (intro mult_mono) simp_all
      then have "d < d + int k * n" by simp
      moreover have "out = Format (midnightUTC (d + int k * n))"
        using loop k(2) unfolding d by simp
      ultimately show ?thesis
        using daily k(3) by (intro exI [of _ "d + int k * n"]) simp
    next
      case yearly
      have run: "map_option (\<lambda>date. Inr (Format date)) (yearlyLoop now start) = Some (Inr out)"
        using assms ne start yearly unfolding NextDate_def parts_def by (simp add: Let_def)
      from yearlyLoop_least [of now d] obtain k where k: "1 \<le> k"
        "yearlyLoop now (midnightUTC d) = Some (((\<lambda>t. AddDate t 1 0 0) ^^ k) (midnightUTC d))"
        "absDays now \<le> absDays (((\<lambda>t. AddDate t 1 0 0) ^^ k) (midnightUTC d))"
        by blast
      from funpow_AddDate_year [of k d] obtain d' where
        d': "((\<lambda>t. AddDate t 1 0 0) ^^ k) (midnightUTC d) = midnightUTC d'" "d + 365 * int k \<le> d'"
        by blast
      have "d < d'" using d'(2) k(1) by linarith
      moreover have "out = Format (midnightUTC d')"
        using run k(2) d'(1) unfolding d by simp
      moreover have "absDays now \<le> d'"
        using k(3) unfolding d'(1) by (simp add: absDays_midnightUTC)
      ultimately show ?thesis
        using yearly by (intro exI [of _ d']) simp
    next
      case weekly
      have run: "(if length parts < 2 then Some (Inl MissingRuleParameter)
          else case parseWeekdays (Split (parts ! 1) CHR '','') (replicate 8 False) of
            Inl e \<Rightarrow> Some (Inl e)
          | Inr weekdays \<Rightarrow>
              map_option (\<lambda>date. Inr (Format date)) (weeklyLoop weekdays now start))
          = Some (Inr out)"
        using assms ne start weekly unfolding NextDate_def parts_def by (simp add: Let_def)
      then obtain weekdays where
        "map_option (\<lambda>date. Inr (Format date)) (weeklyLoop weekdays now start) = Some (Inr out)"
        by (cases "parseWeekdays (Split (parts ! 1) CHR '','') (replicate 8 False)")
           (auto split: if_splits)
      then obtain r where r: "weeklyLoop weekdays now start = Some r" "out = Format r"
        by auto
      from weeklyLoop_partial [OF r(1), rule_format, OF d] obtain d' where
        "r = midnightUTC d'" "d < d'" "After r now"
        by blast
      with r(2) weekly show ?thesis
        by (intro exI [of _ d']) simp
    next
      case monthly
      from NextDate_monthly_run [OF assms monthly(3) [unfolded parts_def]] start
      obtain dayFlags hasMinus1 hasMinus2 monthFlags r where
        r: "monthlyLoop dayFlags hasMinus1 hasMinus2 monthFlags now start = Some r" "out = Format r"
        by auto
      from monthlyLoop_partial [OF r(1), rule_format, OF d] obtain d' where
        "r = midnightUTC d'" "d < d'" "After r now"
        by blast
      with r(2) monthly show ?thesis
        by (intro exI [of _ d']) simp
    next
      case other
      then have "NextDate now dstart repeat = Some (Inl UnsupportedRuleKind)"
        using ne start unfolding NextDate_def parts_def by (simp add: Let_def)
      with assms show ?thesis by simp
    qed
  qed
  then show ?thesis
    using start unfolding d parts_def by blast
qed

text \<open>
  Claim C10. Whenever \<open>NextDate\<close> returns a date, the start date parses and the date
  returned is the format of a day strictly after the start date: every loop advances
  the date before it tests.
\<close>

theorem NextDate_after_start:
  assumes "NextDate now dstart repeat = Some (Inr out)"
  shows "\<exists>start r. Parse dstart = Some start \<and> out = Format r \<and> absDays start < absDays r"
proof -
  from NextDate_result [OF assms] obtain d d' where
    "Parse dstart = Some (midnightUTC d)" "out = Format (midnightUTC d')" "d < d'"
    by blast
  then show ?thesis
    by (intro exI [of _ "midnightUTC d"] exI [of _ "midnightUTC d'"])
       (simp add: absDays_midnightUTC)
qed

theorem NextDate_after_start_witness:
  "\<exists>start r. Parse ''20250310'' = Some start \<and> ''20250311'' = Format r
      \<and> absDays start < absDays r"
proof -
  have "NextDate (timeDate 2025 3 10 0 0 0 0 UTC) ''20250310'' ''d 1'' = Some (Inr ''20250311'')"
    by code_simp
  then show ?thesis
    by (rule NextDate_after_start)
qed

section \<open>The errors of the calculator\<close>

text \<open>
  Claim C9. \<open>NextDate\<close> fails with \<open>EmptyRule\<close> on the empty rule, whatever the start
  date is; with \<open>InvalidStartDate\<close> on a rule that is not empty and a start date that
  does not parse; with \<open>InvalidRuleParameter\<close> on \<^verbatim>\<open>d 500\<close>; and with
  \<open>UnsupportedRuleKind\<close> on a rule whose first token is none of \<^verbatim>\<open>d\<close>, \<^verbatim>\<open>y\<close>,
  \<^verbatim>\<open>w\<close>, \<^verbatim>\<open>m\<close> (the last two for a start date that parses).
\<close>

theorem NextDate_errors:
  "NextDate now dstart [] = Some (Inl EmptyRule)
   \<and> (repeat \<noteq> [] \<and> Parse dstart = None \<longrightarrow>
        NextDate now dstart repeat = Some (Inl InvalidStartDate))
   \<and> (Parse dstart \<noteq> None \<longrightarrow>
        NextDate now dstart ''d 500'' = Some (Inl InvalidRuleParameter))
   \<and> (repeat \<noteq> [] \<and> Parse dstart \<noteq> None
        \<and> Split repeat CHR '' '' ! 0 \<notin> {''d'', ''y'', ''w'', ''m''} \<longrightarrow>
        NextDate now dstart repeat = Some (Inl UnsupportedRuleKind))"
proof -
  have "Atoi ''500'' = Some 500"
    by code_simp
  then show ?thesis
    by (auto simp add: NextDate_def Let_def)
qed

theorem NextDate_errors_witness:
  "NextDate (timeDate 2025 1 15 9 0 0 0 UTC) ''20250101'' '''' = Some (Inl EmptyRule)
   \<and> NextDate (timeDate 2025 1 15 9 0 0 0 UTC) ''bad-date'' ''d 1'' = Some (Inl InvalidStartDate)
   \<and> NextDate (timeDate 2025 1 15 9 0 0 0 UTC) ''20250101'' ''d 500''
       = Some (Inl InvalidRuleParameter)
   \<and> NextDate (timeDate 2025 1 15 9 0 0 0 UTC) ''20250101'' ''x 1''
       = Some (Inl UnsupportedRuleKind)"
proof -
  have p: "Parse ''20250101'' \<noteq> None" "Parse ''bad-date'' = None"
    by (simp_all add: Parse_eval)
  have s: "Split ''x 1'' CHR '' '' ! 0 \<notin> {''d'', ''y'', ''w'', ''m''}"
    by simp
  show ?thesis
    using NextDate_errors [of "timeDate 2025 1 15 9 0 0 0 UTC" "''20250101''" "''x 1''"]
      NextDate_errors [of "timeDate 2025 1 15 9 0 0 0 UTC" "''bad-date''" "''d 1''"] p s
    by simp
qed

section \<open>The validator\<close>

text \<open>
  Claim C4 at the rule \<^verbatim>\<open>d 500\<close>. The validator tests the number of a \<^verbatim>\<open>d\<close> rule
  against 0 only: it accepts \<^verbatim>\<open>d 500\<close>, which its own comment (every N days, 1..400)
  excludes and which \<open>NextDate\<close> refuses.
\<close>

theorem checkRepeat_d_500:
  "checkRepeat ''d 500'' = Inr ()
   \<and> NextDate now ''20250101'' ''d 500'' = Some (Inl InvalidRuleParameter)"
proof -
  have "checkRepeat ''d 500'' = Inr ()" "Atoi ''500'' = Some 500"
    by code_simp+
  moreover have "Parse ''20250101'' \<noteq> None"
    by (simp add: Parse_eval)
  ultimately have "checkRepeat ''d 500'' = Inr ()" "Parse ''20250101'' \<noteq> None"
      "Atoi ''500'' = Some 500"
    by simp_all
  then show ?thesis
    by (auto simp add: NextDate_def Let_def)
qed

text \<open>
  Claim C5 at the rules \<^verbatim>\<open>m 1 13\<close> and \<^verbatim>\<open>m 1 x\<close>. The validator checks the day list
  of an \<^verbatim>\<open>m\<close> rule and never reads the month list: it accepts a month 13 and a month
  that is not a number, where \<open>NextDate\<close> refuses the rule.
\<close>

theorem checkRepeat_m_month_13:
  "checkRepeat ''m 1 13'' = Inr () \<and> checkRepeat ''m 1 x'' = Inr ()
   \<and> NextDate now ''20250101'' ''m 1 13'' = Some (Inl InvalidRuleParameter)"
proof -
  have c: "checkRepeat ''m 1 13'' = Inr ()" "checkRepeat ''m 1 x'' = Inr ()"
    by code_simp+
  have p: "Parse ''20250101'' = Some (midnightUTC (dateToDays 2025 1 1))"
    by (simp add: Parse_eval timeDate_midnightUTC)
  have s: "Split ''m 1 13'' CHR '' '' = [''m'', ''1'', ''13'']"
    by simp
  have pd: "parseDays [''1''] (replicate 32 False, False, False)
      = Inr ((replicate 32 False)[1 := True], False, False)"
    by code_simp
  have pm: "parseMonths [''13''] (replicate 13 False) = Inl InvalidRuleParameter"
    by code_simp
  have "NextDate now ''20250101'' ''m 1 13'' = Some (Inl InvalidRuleParameter)"
    unfolding NextDate_def
    by (simp add: p s pd pm Let_def del: parseDays.simps parseMonths.simps)
  with c show ?thesis by simp
qed

section \<open>The normaliser\<close>

declare showNat.simps [simp del]

lemma Parse_nonempty: "Parse s = Some t \<Longrightarrow> s \<noteq> []"
  by (auto simp add: Parse_def)

lemma showNat_nonempty: "showNat u \<noteq> []"
  by (subst showNat.simps) simp

lemma Format_nonempty: "Format t \<noteq> []"
  by (cases "dateOf t") (simp add: Format_def appendInt_def Let_def showNat_nonempty)

lemma digitVal_digitChar:
  assumes "k < 10"
  shows "digitVal (digitChar k) = Some (int k)"
proof -
  from assms have "k = 0 \<or> k = 1 \<or> k = 2 \<or> k = 3 \<or> k = 4 \<or> k = 5 \<or> k = 6 \<or> k = 7 \<or> k = 8 \<or> k = 9"
    by arith
  then show ?thesis
    by (elim disjE) (simp_all add: digitChar_def digitVal_def)
qed

lemma digitsVal_append:
  "digitsVal n (xs @ ys) = (case digitsVal n xs of None \<Rightarrow> None | Some v \<Rightarrow> digitsVal v ys)"
  by (induction xs arbitrary: n) (simp_all split: option.splits)

lemma digitsVal_showNat: "digitsVal n (showNat u) = Some (n * 10 ^ length (showNat u) + int u)"
proof (induction u arbitrary: n rule: showNat.induct)
  case (1 u)
  show ?case
  proof (cases "u < 10")
    case True
    then have "showNat u = [digitChar u]"
      by (subst showNat.simps) simp
    with True show ?thesis
      by (simp add: digitVal_digitChar)
  next
    case False
    define q where "q = u div 10"
    define r where "r = u mod 10"
    have u: "u = q * 10 + r" and r: "r < 10"
      by (simp_all add: q_def r_def)
    have s: "showNat u = showNat q @ [digitChar r]"
      using False by (subst showNat.simps) (simp add: q_def r_def)
    have "digitsVal n (showNat q) = Some (n * 10 ^ length (showNat q) + int q)"
      using "1.IH" [OF False] by (simp add: q_def)
    then show ?thesis
      unfolding s digitsVal_append
      by (simp add: digitVal_digitChar [OF r] u algebra_simps)
  qed
qed

lemma digitsVal_zeros: "digitsVal n (replicate k CHR ''0'') = Some (n * 10 ^ k)"
  by (induction k arbitrary: n) (simp_all add: digitVal_def)

lemma digitsVal_appendInt:
  assumes "0 \<le> x"
  shows "digitsVal 0 (appendInt x w) = Some x"
  using assms
  by (simp add: appendInt_def Let_def digitsVal_append digitsVal_zeros digitsVal_showNat)

lemma length_showNat_2:
  assumes "u < 100"
  shows "length (showNat u) \<le> 2"
proof (cases "u < 10")
  case True
  then show ?thesis by (subst showNat.simps) simp
next
  case False
  define q where "q = u div 10"
  have "q < 10"
    using assms unfolding q_def by simp
  then have "showNat q = [digitChar q]"
    by (subst showNat.simps) simp
  then show ?thesis
    using False by (subst showNat.simps) (simp add: q_def)
qed

lemma length_appendInt_2:
  assumes "0 \<le> x" "x < 100"
  shows "length (appendInt x 2) = 2"
proof -
  have "nat \<bar>x\<bar> < 100"
    using assms by simp
  from length_showNat_2 [OF this] show ?thesis
    using assms by (simp add: appendInt_def Let_def)
qed

lemma length_appendInt_4:
  assumes "length (appendInt x 4) = 4"
  shows "0 \<le> x"
proof (rule ccontr)
  assume "\<not> 0 \<le> x"
  then have "length (appendInt x 4) = 1 + ((4 - length (showNat (nat \<bar>x\<bar>))) + length (showNat (nat \<bar>x\<bar>)))"
    by (simp add: appendInt_def Let_def)
  with assms show False
    by arith
qed

text \<open>A formatted date that parses is parsed to midnight UTC of the day formatted.\<close>

lemma Parse_Format:
  assumes "Parse (Format r) = Some t"
  shows "t = midnightUTC (absDays r)"
proof -
  obtain y m d where a: "absDate (absDays r) = (y, m, d)"
    by (cases "absDate (absDays r)") auto
  from absDate_sound [OF a] have s: "1 \<le> m" "m \<le> 12" "1 \<le> d" "d \<le> daysIn m y"
    "dateToDays y m d = absDays r"
    by simp_all
  from daysIn_le_31 [OF s(1,2), of y] s(4) have d31: "d \<le> 31"
    by simp
  define A where "A = appendInt y 4"
  define B where "B = appendInt m 2"
  define C where "C = appendInt d 2"
  have f: "Format r = A @ B @ C"
    by (simp add: Format_def dateOf_def a A_def B_def C_def)
  have lB: "length B = 2" and lC: "length C = 2"
    unfolding B_def C_def using s(1,2,3) d31 by (simp_all add: length_appendInt_2)
  from assms have "length (Format r) = 8"
    by (auto simp add: Parse_def split: if_splits)
  then have lA: "length A = 4"
    unfolding f using lB lC by simp
  then have y0: "0 \<le> y"
    unfolding A_def by (rule length_appendInt_4)
  have parts: "take 4 (Format r) = A" "take 2 (drop 4 (Format r)) = B" "drop 6 (Format r) = C"
    unfolding f using lA lB lC by simp_all
  have vals: "digitsVal 0 A = Some y" "digitsVal 0 B = Some m" "digitsVal 0 C = Some d"
    unfolding A_def B_def C_def using y0 s(1,3) by (simp_all add: digitsVal_appendInt)
  from assms have "t = timeDate y m d 0 0 0 0 UTC"
    unfolding Parse_def parts vals by (simp split: if_splits)
  then show ?thesis
    by (simp add: timeDate_midnightUTC s(5))
qed

lemma After_trans:
  assumes "After a b" "\<not> After c b"
  shows "After a c"
  using assms by (auto simp add: After_def)

lemma checkDate_Repeat:
  assumes "checkDate now task = Some (Inr task1)"
  shows "Repeat task1 = Repeat task"
proof -
  define task' where "task' = (if Date task = [] then task\<lparr>Date := Format now\<rparr> else task)"
  have r: "Repeat task' = Repeat task"
    by (simp add: task'_def)
  from assms obtain t where t: "Parse (Date task') = Some t"
    unfolding checkDate_def task'_def [symmetric] Let_def
    by (cases "Parse (Date task')") auto
  from assms have "\<exists>x. task1 = task'\<lparr>Date := x\<rparr>"
    unfolding checkDate_def task'_def [symmetric] Let_def t
    by (auto split: if_splits option.splits sum.splits intro: exI [of _ "Date task'"])
  with r show ?thesis by auto
qed

text \<open>What a successful call has done, for a task whose date is not empty.\<close>

lemma checkDate_Inr:
  assumes "checkDate now task = Some (Inr task1)" and "Date task \<noteq> []"
  shows "\<exists>t. Parse (Date task) = Some t
      \<and> (Repeat task = [] \<longrightarrow>
           task1 = (if Before t (startOfDay now) then task\<lparr>Date := Format now\<rparr> else task))
      \<and> (Repeat task \<noteq> [] \<longrightarrow>
           (\<exists>next. NextDate now (Date task) (Repeat task) = Some (Inr next)
              \<and> task1 = (if \<not> After t (startOfDay now) then task\<lparr>Date := next\<rparr> else task)))"
proof -
  have norm: "(if Date task = [] then task\<lparr>Date := Format now\<rparr> else task) = task"
    using assms(2) by simp
  from assms(1) obtain t where t: "Parse (Date task) = Some t"
    unfolding checkDate_def norm Let_def
    by (cases "Parse (Date task)") auto
  show ?thesis
  proof (cases "Repeat task = []")
    case True
    with assms(1) show ?thesis
      unfolding checkDate_def norm Let_def t by (simp split: if_splits)
  next
    case False
    with assms(1) obtain nx where nx: "NextDate now (Date task) (Repeat task) = Some (Inr nx)"
      unfolding checkDate_def norm Let_def t
      by (cases "NextDate now (Date task) (Repeat task)") (auto split: sum.splits)
    with assms(1) False show ?thesis
      unfolding checkDate_def norm Let_def t by (simp split: if_splits)
  qed
qed

lemma checkDate_norm:
  "checkDate now task = checkDate now (if Date task = [] then task\<lparr>Date := Format now\<rparr> else task)"
  by (simp add: checkDate_def Let_def Format_nonempty)

text \<open>In UTC the start of the day of a moment is not after the moment.\<close>

lemma startOfDay_UTC:
  assumes "loc now = UTC" "0 \<le> nsec now"
  shows "\<not> After (startOfDay now) now"
proof -
  obtain y m d where a: "absDate (absDays now) = (y, m, d)"
    by (cases "absDate (absDays now)") auto
  have s: "startOfDay now = midnightUTC (absDays now)"
    by (simp add: startOfDay_def dateOf_def a assms(1) timeDate_midnightUTC
        dateToDays_absDate [OF a])
  define q where "q = sec now div 86400"
  define r where "r = sec now mod 86400"
  have "sec now = q * 86400 + r" "0 \<le> r"
    by (simp_all add: q_def r_def)
  moreover have "absDays now = q"
    by (simp add: absDays_def zoneOffset_def assms(1) UTC_def q_def)
  ultimately show ?thesis
    unfolding s After_midnightUTC using assms(2) by simp
qed

text \<open>
  London, noon of 2025-03-30, the day the clocks go forward at 01:00 UTC: the day began
  at 00:00 with offset 0, which is midnight UTC of that date, so a daily task of that
  date is not after the start of the day and is moved to the next day.
\<close>

lemma checkDate_clock_change:
  "checkDate
     \<lparr>sec = 1743332400 + unixToInternal, nsec = 0,
      loc = (\<lambda>unix. if unix < 1743296400 then (0, 1729990800, 1743296400)
                    else (3600, 1743296400, 1761440400))\<rparr>
     \<lparr>ID = ''1'', Date = ''20250330'', Title = ''t'', Comment = '''', Repeat = ''d 1''\<rparr>
   = Some (Inr \<lparr>ID = ''1'', Date = ''20250331'', Title = ''t'', Comment = '''', Repeat = ''d 1''\<rparr>)"
  by code_simp

text \<open>
  Claim C3, as the code has it. Let \<open>checkDate\<close> succeed twice in a row with the same
  \<open>now\<close>. If the task does not repeat, the second call leaves the task as the first
  call left it. So it does for a weekly or a monthly rule, when the start of the day of
  \<open>now\<close> is not after \<open>now\<close>: the date \<open>NextDate\<close> gave is after \<open>now\<close>. For any
  rule, the second call leaves the task as it was if the date the first call left is
  after the start of the day of \<open>now\<close>; if it is not, the second call replaces it by
  the date \<open>NextDate\<close> gives from it, which is a later day, and the task is not the
  same as after the first call.
\<close>

theorem checkDate_twice:
  assumes first: "checkDate now task = Some (Inr task1)"
    and second: "checkDate now task1 = Some (Inr task2)"
  shows "(Repeat task = [] \<longrightarrow> task2 = task1)
    \<and> ((Split (Repeat task) CHR '' '' ! 0 = ''w'' \<or> Split (Repeat task) CHR '' '' ! 0 = ''m'')
         \<and> \<not> After (startOfDay now) now \<longrightarrow> task2 = task1)
    \<and> (Repeat task \<noteq> [] \<longrightarrow>
         (\<exists>t1. Parse (Date task1) = Some t1
            \<and> (if After t1 (startOfDay now) then task2 = task1
               else \<exists>r2. NextDate now (Date task1) (Repeat task) = Some (Inr (Format r2))
                      \<and> task2 = task1\<lparr>Date := Format r2\<rparr>
                      \<and> absDays t1 < absDays r2 \<and> task2 \<noteq> task1)))"
proof -
  define task' where "task' = (if Date task = [] then task\<lparr>Date := Format now\<rparr> else task)"
  have ne': "Date task' \<noteq> []"
    by (simp add: task'_def Format_nonempty)
  have rep': "Repeat task' = Repeat task"
    by (simp add: task'_def)
  have first': "checkDate now task' = Some (Inr task1)"
    using first checkDate_norm [of now task] by (simp add: task'_def)
  from checkDate_Inr [OF first' ne'] obtain t where t: "Parse (Date task') = Some t"
    and plain: "Repeat task = [] \<Longrightarrow>
        task1 = (if Before t (startOfDay now) then task'\<lparr>Date := Format now\<rparr> else task')"
    and rept: "Repeat task \<noteq> [] \<Longrightarrow>
        \<exists>next. NextDate now (Date task') (Repeat task) = Some (Inr next)
          \<and> task1 = (if \<not> After t (startOfDay now) then task'\<lparr>Date := next\<rparr> else task')"
    unfolding rep' by blast
  have rep1: "Repeat task1 = Repeat task"
    using first by (rule checkDate_Repeat)
  have ne1: "Date task1 \<noteq> []"
  proof (cases "Repeat task = []")
    case True
    from plain [OF True] show ?thesis
      using ne' by (simp add: Format_nonempty split: if_splits)
  next
    case False
    from rept [OF False] obtain nx where
      nx: "NextDate now (Date task') (Repeat task) = Some (Inr nx)"
      "task1 = (if \<not> After t (startOfDay now) then task'\<lparr>Date := nx\<rparr> else task')"
      by blast
    from NextDate_result [OF nx(1)] have "nx \<noteq> []"
      by (auto simp add: Format_nonempty)
    with nx(2) ne' show ?thesis
      by (simp split: if_splits)
  qed
  from checkDate_Inr [OF second ne1] obtain t1 where t1: "Parse (Date task1) = Some t1"
    and plain1: "Repeat task = [] \<Longrightarrow>
        task2 = (if Before t1 (startOfDay now) then task1\<lparr>Date := Format now\<rparr> else task1)"
    and rept1: "Repeat task \<noteq> [] \<Longrightarrow>
        \<exists>next. NextDate now (Date task1) (Repeat task) = Some (Inr next)
          \<and> task2 = (if \<not> After t1 (startOfDay now) then task1\<lparr>Date := next\<rparr> else task1)"
    unfolding rep1 by blast
  have a: "task2 = task1" if "Repeat task = []"
  proof (cases "Before t (startOfDay now)")
    case True
    with plain [OF that] have "Date task1 = Format now"
      by simp
    then have "task1\<lparr>Date := Format now\<rparr> = task1"
      by simp
    then show ?thesis
      using plain1 [OF that] by simp
  next
    case False
    with plain [OF that] have "task1 = task'"
      by simp
    with t t1 have "t1 = t" by simp
    with False show ?thesis
      using plain1 [OF that] by simp
  qed
  have c: "if After t1 (startOfDay now) then task2 = task1
      else \<exists>r2. NextDate now (Date task1) (Repeat task) = Some (Inr (Format r2))
             \<and> task2 = task1\<lparr>Date := Format r2\<rparr>
             \<and> absDays t1 < absDays r2 \<and> task2 \<noteq> task1" if "Repeat task \<noteq> []"
  proof (cases "After t1 (startOfDay now)")
    case True
    with rept1 [OF that] show ?thesis
      by auto
  next
    case False
    from rept1 [OF that] False obtain nx where
      nx: "NextDate now (Date task1) (Repeat task) = Some (Inr nx)" "task2 = task1\<lparr>Date := nx\<rparr>"
      by auto
    from NextDate_result [OF nx(1)] t1 obtain d d' where
      d: "t1 = midnightUTC d" "nx = Format (midnightUTC d')" "d < d'"
      by auto
    have "nx \<noteq> Date task1"
    proof
      assume "nx = Date task1"
      with t1 d(2) have "Parse (Format (midnightUTC d')) = Some t1"
        by simp
      from Parse_Format [OF this] have "t1 = midnightUTC d'"
        by (simp add: absDays_midnightUTC)
      with d(1) have "absDays (midnightUTC d) = absDays (midnightUTC d')"
        by simp
      with d(3) show False
        by (simp add: absDays_midnightUTC)
    qed
    then have "task2 \<noteq> task1"
      unfolding nx(2) by (metis Task.select_convs(2) Task.surjective Task.update_convs(2))
    with nx d False show ?thesis
      by (auto simp add: absDays_midnightUTC intro!: exI [of _ "midnightUTC d'"])
  qed
  have b: "task2 = task1"
    if wm: "Split (Repeat task) CHR '' '' ! 0 = ''w'' \<or> Split (Repeat task) CHR '' '' ! 0 = ''m''"
      and sod: "\<not> After (startOfDay now) now"
  proof -
    from wm have r: "Repeat task \<noteq> []"
      by auto
    from rept [OF r] obtain nx where
      nx: "NextDate now (Date task') (Repeat task) = Some (Inr nx)"
      "task1 = (if \<not> After t (startOfDay now) then task'\<lparr>Date := nx\<rparr> else task')"
      by blast
    have "After t1 (startOfDay now)"
    proof (cases "After t (startOfDay now)")
      case True
      with nx(2) have "task1 = task'" by simp
      with t t1 have "t1 = t" by simp
      with True show ?thesis by simp
    next
      case False
      with nx(2) have dt: "Date task1 = nx" by simp
      from NextDate_result [OF nx(1)] wm obtain d' where
        d': "nx = Format (midnightUTC d')" "After (midnightUTC d') now"
        by auto
      from t1 have "Parse (Format (midnightUTC d')) = Some t1"
        unfolding dt d'(1) .
      from Parse_Format [OF this] have "t1 = midnightUTC d'"
        by (simp add: absDays_midnightUTC)
      with d'(2) sod show ?thesis
        by (auto intro: After_trans)
    qed
    with c [OF r] show ?thesis
      by simp
  qed
  from a b c t1 show ?thesis
    by auto
qed

text \<open>
  A daily task dated yesterday: the first call moves it to today, which \<^verbatim>\<open>afterNow\<close>
  accepts; the second call finds it not after the start of today and moves it to
  tomorrow.
\<close>

theorem checkDate_twice_counterexample:
  "checkDate (timeDate 2025 3 10 12 0 0 0 UTC)
      \<lparr>ID = ''1'', Date = ''20250309'', Title = ''t'', Comment = '''', Repeat = ''d 1''\<rparr>
     = Some (Inr \<lparr>ID = ''1'', Date = ''20250310'', Title = ''t'', Comment = '''', Repeat = ''d 1''\<rparr>)
   \<and> checkDate (timeDate 2025 3 10 12 0 0 0 UTC)
      \<lparr>ID = ''1'', Date = ''20250310'', Title = ''t'', Comment = '''', Repeat = ''d 1''\<rparr>
     = Some (Inr \<lparr>ID = ''1'', Date = ''20250311'', Title = ''t'', Comment = '''', Repeat = ''d 1''\<rparr>)"
  by code_simp

theorem checkDate_twice_witness:
  "checkDate (timeDate 2025 3 10 12 0 0 0 UTC)
      \<lparr>ID = ''1'', Date = ''20250301'', Title = ''t'', Comment = ''c'', Repeat = ''w 3''\<rparr>
     = Some (Inr \<lparr>ID = ''1'', Date = ''20250312'', Title = ''t'', Comment = ''c'', Repeat = ''w 3''\<rparr>)
   \<and> checkDate (timeDate 2025 3 10 12 0 0 0 UTC)
      \<lparr>ID = ''1'', Date = ''20250312'', Title = ''t'', Comment = ''c'', Repeat = ''w 3''\<rparr>
     = Some (Inr \<lparr>ID = ''1'', Date = ''20250312'', Title = ''t'', Comment = ''c'', Repeat = ''w 3''\<rparr>)
   \<and> checkDate (timeDate 2025 3 10 12 0 0 0 UTC)
      \<lparr>ID = ''2'', Date = ''20250210'', Title = ''t'', Comment = ''c'', Repeat = ''d 28''\<rparr>
     = Some (Inr \<lparr>ID = ''2'', Date = ''20250310'', Title = ''t'', Comment = ''c'', Repeat = ''d 28''\<rparr>)
   \<and> checkDate (timeDate 2025 3 10 12 0 0 0 UTC)
      \<lparr>ID = ''3'', Date = ''20250301'', Title = ''t'', Comment = ''c'', Repeat = ''''\<rparr>
     = Some (Inr \<lparr>ID = ''3'', Date = ''20250310'', Title = ''t'', Comment = ''c'', Repeat = ''''\<rparr>)
   \<and> checkDate (timeDate 2025 3 10 12 0 0 0 UTC)
      \<lparr>ID = ''3'', Date = ''20250310'', Title = ''t'', Comment = ''c'', Repeat = ''''\<rparr>
     = Some (Inr \<lparr>ID = ''3'', Date = ''20250310'', Title = ''t'', Comment = ''c'', Repeat = ''''\<rparr>)
   \<and> (\<exists>r2. checkDate (timeDate 2025 3 10 12 0 0 0 UTC)
         \<lparr>ID = ''2'', Date = ''20250310'', Title = ''t'', Comment = ''c'', Repeat = ''d 28''\<rparr>
        = Some (Inr \<lparr>ID = ''2'', Date = Format r2, Title = ''t'', Comment = ''c'', Repeat = ''d 28''\<rparr>)
      \<and> Format r2 = ''20250407''
      \<and> absDays (timeDate 2025 3 10 0 0 0 0 UTC) < absDays r2)"
proof -
  define now where "now = timeDate 2025 3 10 12 0 0 0 UTC"
  define task where
    "task = \<lparr>ID = ''1'', Date = ''20250301'', Title = ''t'', Comment = ''c'', Repeat = ''w 3''\<rparr>"
  define task1 where
    "task1 = \<lparr>ID = ''1'', Date = ''20250312'', Title = ''t'', Comment = ''c'', Repeat = ''w 3''\<rparr>"
  have first: "checkDate now task = Some (Inr task1)"
    unfolding now_def task_def task1_def by code_simp
  have "checkDate now task1 = Some (Inr task1)"
    unfolding now_def task1_def by code_simp
  then obtain task2 where second: "checkDate now task1 = Some (Inr task2)"
    by blast
  have "Split ''w 3'' CHR '' '' ! 0 = ''w''"
    by code_simp
  then have wm: "Split (Repeat task) CHR '' '' ! 0 = ''w''
      \<or> Split (Repeat task) CHR '' '' ! 0 = ''m''"
    unfolding task_def by simp
  have sod: "\<not> After (startOfDay now) now"
    unfolding now_def by code_simp
  from checkDate_twice [OF first second] wm sod have "task2 = task1"
    by blast
  with first second have weekly: "checkDate now task = Some (Inr task1)"
    "checkDate now task1 = Some (Inr task1)"
    by simp_all
  define taskp where
    "taskp = \<lparr>ID = ''3'', Date = ''20250301'', Title = ''t'', Comment = ''c'', Repeat = ''''\<rparr>"
  define taskp1 where
    "taskp1 = \<lparr>ID = ''3'', Date = ''20250310'', Title = ''t'', Comment = ''c'', Repeat = ''''\<rparr>"
  have firstp: "checkDate now taskp = Some (Inr taskp1)"
    unfolding now_def taskp_def taskp1_def by code_simp
  have "checkDate now taskp1 = Some (Inr taskp1)"
    unfolding now_def taskp1_def by code_simp
  then obtain taskp2 where secondp: "checkDate now taskp1 = Some (Inr taskp2)"
    by blast
  have "Repeat taskp = []"
    unfolding taskp_def by simp
  with checkDate_twice [OF firstp secondp] have "taskp2 = taskp1"
    by blast
  with firstp secondp have plain: "checkDate now taskp = Some (Inr taskp1)"
    "checkDate now taskp1 = Some (Inr taskp1)"
    by simp_all
  define taskd where
    "taskd = \<lparr>ID = ''2'', Date = ''20250210'', Title = ''t'', Comment = ''c'', Repeat = ''d 28''\<rparr>"
  define taskd1 where
    "taskd1 = \<lparr>ID = ''2'', Date = ''20250310'', Title = ''t'', Comment = ''c'', Repeat = ''d 28''\<rparr>"
  define taskd2 where
    "taskd2 = \<lparr>ID = ''2'', Date = ''20250407'', Title = ''t'', Comment = ''c'', Repeat = ''d 28''\<rparr>"
  have firstd: "checkDate now taskd = Some (Inr taskd1)"
    unfolding now_def taskd_def taskd1_def by code_simp
  have secondd: "checkDate now taskd1 = Some (Inr taskd2)"
    unfolding now_def taskd1_def taskd2_def by code_simp
  have p: "Parse (Date taskd1) = Some (timeDate 2025 3 10 0 0 0 0 UTC)"
    unfolding taskd1_def by (simp add: Parse_eval)
  have na: "\<not> After (timeDate 2025 3 10 0 0 0 0 UTC) (startOfDay now)"
    unfolding now_def by code_simp
  have "Repeat taskd \<noteq> []"
    unfolding taskd_def by simp
  with checkDate_twice [OF firstd secondd] obtain t1 where
    t1: "Parse (Date taskd1) = Some t1"
    "if After t1 (startOfDay now) then taskd2 = taskd1
     else \<exists>r2. NextDate now (Date taskd1) (Repeat taskd) = Some (Inr (Format r2))
            \<and> taskd2 = taskd1\<lparr>Date := Format r2\<rparr>
            \<and> absDays t1 < absDays r2 \<and> taskd2 \<noteq> taskd1"
    by blast
  from t1(1) p have "t1 = timeDate 2025 3 10 0 0 0 0 UTC"
    by simp
  with t1(2) na obtain r2 where r2: "taskd2 = taskd1\<lparr>Date := Format r2\<rparr>"
    "absDays (timeDate 2025 3 10 0 0 0 0 UTC) < absDays r2"
    by auto
  from r2(1) have f: "Format r2 = ''20250407''"
    unfolding taskd1_def taskd2_def by simp
  have "checkDate now taskd1
      = Some (Inr \<lparr>ID = ''2'', Date = Format r2, Title = ''t'', Comment = ''c'', Repeat = ''d 28''\<rparr>)"
    using secondd unfolding f taskd2_def .
  with f r2(2) have daily: "\<exists>r2. checkDate now taskd1
        = Some (Inr \<lparr>ID = ''2'', Date = Format r2, Title = ''t'', Comment = ''c'', Repeat = ''d 28''\<rparr>)
      \<and> Format r2 = ''20250407''
      \<and> absDays (timeDate 2025 3 10 0 0 0 0 UTC) < absDays r2"
    by blast
  from weekly plain firstd daily show ?thesis
    unfolding now_def task_def task1_def taskp_def taskp1_def taskd_def taskd1_def by simp
qed

end
